theory Spec2Isabelle
  imports Main "HOL-Library.Word" "HOL-Library.Product_Lexorder" "HOL-Library.Multiset"
begin

section \<open>Data model of \<open>board/Board.hpp\<close>\<close>

text \<open>
  \<open>Position_t\<close>, \<open>BoardSize_t\<close>, \<open>SuitClass_t\<close> and \<open>PieceClass_t\<close> come from
  \<open>config/BoardConfig.hpp\<close> and \<open>util/Position.hpp\<close>, which \<open>Board.hpp\<close> only includes.
  A position is a pair of integral coordinates \<open>(x, y)\<close>; suits and piece kinds are names.
  The order of positions (the \<open>operator<\<close> that \<open>std::map\<close> uses for its keys) is taken
  to be the lexicographic one, which is the order of pairs here.
\<close>

type_synonym Position_t = "int \<times> int"
type_synonym Suit = string
type_synonym PieceClass_t = string
type_synonym type_index = string

text \<open>
  The data members of \<open>Board::Piece\<close> (lines 37--40). The public const aliases \<open>pos\<close>,
  \<open>suit\<close>, \<open>trajectory\<close>, \<open>captures\<close> and \<open>moves\<close> read the same members. \<open>movenum\<close> is a
  \<open>std::size_t\<close>, taken as 64 bits wide: \<open>++movenum\<close> wraps around. \<open>cls\<close> is the dynamic
  type of the object, which selects the overrides of the virtual member functions.
\<close>

record Piece =
  pos :: Position_t
  suit :: Suit
  traj :: "Position_t set"
  capt :: "Position_t set"
  movenum :: "64 word"
  cls :: string

text \<open>The part of \<open>config::BoardConfig\<close> that \<open>Board\<close> reads.\<close>

record BoardConfig =
  boardWidth :: int
  boardHeight :: int
  initialLayout :: "(Position_t \<times> PieceClass_t \<times> Suit) list"

text \<open>
  The data members of \<open>Board\<close> (lines 172--177).

  \<^item> \<open>pieces\<close> is the \<open>std::map\<close> from positions to owned pieces, kept as the list of its
    entries in key order. A piece object is addressed by the key of the map node that owns
    it. The stored \<open>unique_ptr\<close> is never null in a constructed board (the constructor
    dereferences every entry), so an entry holds the piece itself.
  \<^item> \<open>captures\<close> is the \<open>std::multimap\<close> keyed by \<open>Pieces_t::iterator\<close>. Its comparator
    \<open>Pieces_t_iterator_compare\<close> reads nothing but \<open>a->first\<close>, the key of the node the
    iterator points to, and the key of a map node never changes; so an iterator is
    represented by that key. The list holds the entries in the container's order:
    by key, entries with equivalent keys in the order of their insertion.
  \<^item> \<open>factory\<close> is the \<open>std::map\<close> from piece kinds to functions that create a piece.
    The functions themselves are not among the sources; an entry is represented by the
    class whose constructor the function calls.
  \<^item> \<open>interactions\<close> is the \<open>std::map\<close> from \<open>std::type_index\<close> to the owned interaction
    object; \<open>'i\<close> is the type of interaction objects. Nothing iterates over it, and the
    order of \<open>type_index\<close> is implementation-defined, so the list is in order of creation.
\<close>

type_synonym Factory_t = "(PieceClass_t \<times> string) list"

record 'i Board =
  config :: BoardConfig
  pieces :: "(Position_t \<times> Piece) list"
  captures :: "(Position_t \<times> Position_t) list"
  factory :: Factory_t
  interactions :: "(type_index \<times> 'i) list"

text \<open>
  What the code can raise or run into: \<open>std::out_of_range\<close> from \<open>factory.at\<close>, and
  undefined behaviour where an end iterator or a missing object is dereferenced.
\<close>

datatype error = OutOfRange | Undefined

section \<open>Containers\<close>

text \<open>\<open>std::map::operator[]\<close> followed by an assignment: insert in key order, or overwrite.\<close>

fun map_assign :: "'k::linorder \<Rightarrow> 'v \<Rightarrow> ('k \<times> 'v) list \<Rightarrow> ('k \<times> 'v) list" where
  "map_assign k v [] = [(k, v)]"
| "map_assign k v (e # es) =
     (if k < fst e then (k, v) # e # es
      else if k = fst e then (k, v) # es
      else e # map_assign k v es)"

text \<open>
  \<open>std::multimap::insert\<close>: the new entry goes to the upper bound of its key, after the
  entries with an equivalent key.
\<close>

fun mm_insert :: "'k::linorder \<times> 'v \<Rightarrow> ('k \<times> 'v) list \<Rightarrow> ('k \<times> 'v) list" where
  "mm_insert e [] = [e]"
| "mm_insert e (x # xs) = (if fst e < fst x then e # x # xs else x # mm_insert e xs)"

text \<open>
  \<open>std::multimap::equal_range\<close>, as the pair of indices of the lower and the upper bound
  of a key.
\<close>

definition equal_range :: "'k::linorder \<Rightarrow> ('k \<times> 'v) list \<Rightarrow> nat \<times> nat" where
  "equal_range k xs =
     (length (takeWhile (\<lambda>e. fst e < k) xs), length (takeWhile (\<lambda>e. \<not> k < fst e) xs))"

text \<open>\<open>std::multimap::erase(iterator)\<close>: exactly the entry at that place goes.\<close>

definition erase_at :: "nat \<Rightarrow> 'a list \<Rightarrow> 'a list" where
  "erase_at i xs = take i xs @ drop (Suc i) xs"

text \<open>A member function runs on the piece object owned by the map node with key \<open>this\<close>.\<close>

definition upd_piece :: "Position_t \<Rightarrow> (Piece \<Rightarrow> Piece) \<Rightarrow> 'i Board \<Rightarrow> 'i Board" where
  "upd_piece this f b =
     b\<lparr>pieces := map (\<lambda>(k, pc). if k = this then (k, f pc) else (k, pc)) (pieces b)\<rparr>"

section \<open>Bounds\<close>

text \<open>
  Modelled from the spec: \<open>Position_t::isWithin\<close> and \<open>Position_t::Origin\<close> are declared in
  \<open>util/Position.hpp\<close>, which is not among the sources. The spec gives the bounds check as
  \<open>0 <= pos.x < width\<close> and \<open>0 <= pos.y < height\<close>, so \<open>isWithin\<close> takes the top left corner
  as included and the bottom right corner as excluded, and the origin is \<open>(0, 0)\<close>.
\<close>

definition Origin :: Position_t where
  "Origin = (0, 0)"

definition isWithin :: "Position_t \<Rightarrow> Position_t \<Rightarrow> Position_t \<Rightarrow> bool" where
  "isWithin ps topleft bottomright =
     (fst topleft \<le> fst ps \<and> fst ps < fst bottomright \<and>
      snd topleft \<le> snd ps \<and> snd ps < snd bottomright)"

text \<open>\<open>Board::valid\<close> (lines 252--255).\<close>

definition valid :: "'i Board \<Rightarrow> Position_t \<Rightarrow> bool" where
  "valid b ps = isWithin ps Origin (boardWidth (config b), boardHeight (config b))"

section \<open>The registration primitives of \<open>Board::Piece\<close>\<close>

text \<open>\<open>addTrajectory\<close> (lines 67--73) and \<open>removeTrajectory\<close> (lines 75--78).\<close>

definition addTrajectory :: "Position_t \<Rightarrow> Position_t \<Rightarrow> 'i Board \<Rightarrow> 'i Board" where
  "addTrajectory this tile b =
     (if valid b tile then upd_piece this (\<lambda>pc. pc\<lparr>traj := insert tile (traj pc)\<rparr>) b else b)"

definition removeTrajectory :: "Position_t \<Rightarrow> Position_t \<Rightarrow> 'i Board \<Rightarrow> 'i Board" where
  "removeTrajectory this tile b = upd_piece this (\<lambda>pc. pc\<lparr>traj := traj pc - {tile}\<rparr>) b"

text \<open>\<open>addCapturing\<close> (lines 81--87) and \<open>removeCapturing\<close> (lines 89--92).\<close>

definition addCapturing :: "Position_t \<Rightarrow> Position_t \<Rightarrow> 'i Board \<Rightarrow> 'i Board" where
  "addCapturing this tile b =
     (if valid b tile then upd_piece this (\<lambda>pc. pc\<lparr>capt := insert tile (capt pc)\<rparr>) b else b)"

definition removeCapturing :: "Position_t \<Rightarrow> Position_t \<Rightarrow> 'i Board \<Rightarrow> 'i Board" where
  "removeCapturing this tile b = upd_piece this (\<lambda>pc. pc\<lparr>capt := capt pc - {tile}\<rparr>) b"

text \<open>
  \<open>board.pieces.find(pos)\<close>, with \<open>pos\<close> the position member of the piece \<open>this\<close>: the
  iterator to the node with that key, or \<open>None\<close> for \<open>end()\<close> (also when there is no object
  \<open>this\<close> to read \<open>pos\<close> from).
\<close>

definition find_pos :: "Position_t \<Rightarrow> 'i Board \<Rightarrow> Position_t option" where
  "find_pos this b =
     (case map_of (pieces b) this of
        None \<Rightarrow> None
      | Some pc \<Rightarrow> (case map_of (pieces b) (pos pc) of None \<Rightarrow> None | Some _ \<Rightarrow> Some (pos pc)))"

text \<open>
  \<open>addCapturable\<close> (lines 95--101). The comparator of \<open>captures\<close> dereferences the
  iterators it is given, so an entry keyed by \<open>end()\<close> is undefined behaviour.
\<close>

definition addCapturable :: "Position_t \<Rightarrow> Position_t \<Rightarrow> 'i Board \<Rightarrow> error + 'i Board" where
  "addCapturable this tile b =
     (if valid b tile then
        (case find_pos this b of
           None \<Rightarrow> Inl Undefined
         | Some it \<Rightarrow> Inr (b\<lparr>captures := mm_insert (it, tile) (captures b)\<rparr>))
      else Inr b)"

text \<open>
  The loop of \<open>removeCapturable\<close> (lines 106--113) over the places from \<open>it\<close> up to \<open>stop\<close>:
  the first entry with the tile is erased and the loop is left. The lower bound of a range
  is never behind its upper bound, so \<open>it != range.second\<close> is \<open>it < stop\<close>.
\<close>

function removeCapturable_loop ::
  "nat \<Rightarrow> nat \<Rightarrow> Position_t \<Rightarrow> (Position_t \<times> Position_t) list \<Rightarrow> (Position_t \<times> Position_t) list"
where
  "removeCapturable_loop it stop tile xs =
     (if it < stop then
        (if snd (xs ! it) = tile then erase_at it xs
         else removeCapturable_loop (Suc it) stop tile xs)
      else xs)"
  by pat_completeness auto
termination
  by (relation "measure (\<lambda>(it, stop, tile, xs). stop - it)") auto

declare removeCapturable_loop.simps [simp del]

text \<open>\<open>removeCapturable\<close> (lines 103--114).\<close>

definition removeCapturable :: "Position_t \<Rightarrow> Position_t \<Rightarrow> 'i Board \<Rightarrow> error + 'i Board" where
  "removeCapturable this tile b =
     (case find_pos this b of
        None \<Rightarrow> Inl Undefined
      | Some it \<Rightarrow>
          (let rng = equal_range it (captures b)
           in Inr (b\<lparr>captures := removeCapturable_loop (fst rng) (snd rng) tile (captures b)\<rparr>)))"

section \<open>Queries\<close>

text \<open>
  \<open>Board::at\<close> (lines 213--220), the overload on a mutable board, with the board it
  leaves. \<open>pieces[pos]\<close> is evaluated only behind the check that \<open>pos\<close> is a key, where
  \<open>operator[]\<close> returns the mapped value and inserts nothing.
\<close>

definition at :: "'i Board \<Rightarrow> Position_t \<Rightarrow> Piece option \<times> 'i Board" where
  "at b ps = (if map_of (pieces b) ps = None then (None, b) else (map_of (pieces b) ps, b))"

text \<open>The overload on a const board (lines 221--228).\<close>

definition at_const :: "'i Board \<Rightarrow> Position_t \<Rightarrow> Piece option" where
  "at_const b ps = (if map_of (pieces b) ps = None then None else map_of (pieces b) ps)"

section \<open>Virtual member functions and the interaction registry\<close>

text \<open>
  The bodies of the virtual member functions live in the classes derived from \<open>Piece\<close>
  (\<open>piece/Rook.hpp\<close> declares the overrides of one of them), so they are parameters here.
  A derived class reaches the board through its public members and the piece through the
  protected registration primitives; what an override does is the list of such calls
  that it makes, computed from the board it is called on.
\<close>

datatype Action =
    AddTrajectory Position_t
  | RemoveTrajectory Position_t
  | AddCapturing Position_t
  | RemoveCapturing Position_t
  | AddCapturable Position_t
  | RemoveCapturable Position_t
  | GetInteraction type_index

text \<open>
  \<^item> \<open>calcTrajectory\<close> is pure virtual (line 65): every class has a body. Its arguments
    are the class, the board and the key of the piece it runs on.
  \<^item> \<open>tick\<close> (line 118) and \<open>moveUpdate\<close> (line 133) have an empty body in \<open>Piece\<close>;
    \<open>None\<close> stands for a class that does not override them. Their last arguments are
    those of the member function.
  \<^item> \<open>ctorInteractions\<close> lists the interactions that the constructor of a class requests
    (\<open>Rook\<close> holds a reference to one, bound when it is constructed).
  \<^item> \<open>newInteraction\<close> is \<open>new InteractionT(*this)\<close> for the type with the given index.
\<close>

record 'i Rules =
  calcTrajectory :: "string \<Rightarrow> 'i Board \<Rightarrow> Position_t \<Rightarrow> Action list"
  tick :: "string \<Rightarrow> ('i Board \<Rightarrow> Position_t \<Rightarrow> Position_t \<Rightarrow> Action list) option"
  moveUpdate ::
    "string \<Rightarrow> ('i Board \<Rightarrow> Position_t \<Rightarrow> Position_t \<Rightarrow> Position_t \<Rightarrow> Action list) option"
  ctorInteractions :: "string \<Rightarrow> type_index list"
  newInteraction :: "type_index \<Rightarrow> 'i Board \<Rightarrow> 'i"

text \<open>
  \<open>Board::getInteraction\<close> (lines 200--210), with the object the returned reference
  denotes and the board it leaves. The object stored under \<open>typeid(InteractionT)\<close> was
  constructed as an \<open>InteractionT\<close>, so the \<open>dynamic_cast\<close> does not throw.
\<close>

definition getInteraction :: "'i Rules \<Rightarrow> type_index \<Rightarrow> 'i Board \<Rightarrow> 'i \<times> 'i Board" where
  "getInteraction R t b =
     (case map_of (interactions b) t of
        None \<Rightarrow>
          (let obj = newInteraction R t b
           in (obj, b\<lparr>interactions := interactions b @ [(t, obj)]\<rparr>))
      | Some obj \<Rightarrow> (obj, b))"

text \<open>One call made by an override running on the piece \<open>this\<close>, and a sequence of them.\<close>

fun exec :: "'i Rules \<Rightarrow> Position_t \<Rightarrow> Action \<Rightarrow> 'i Board \<Rightarrow> error + 'i Board" where
  "exec R this (AddTrajectory tile) b = Inr (addTrajectory this tile b)"
| "exec R this (RemoveTrajectory tile) b = Inr (removeTrajectory this tile b)"
| "exec R this (AddCapturing tile) b = Inr (addCapturing this tile b)"
| "exec R this (RemoveCapturing tile) b = Inr (removeCapturing this tile b)"
| "exec R this (AddCapturable tile) b = addCapturable this tile b"
| "exec R this (RemoveCapturable tile) b = removeCapturable this tile b"
| "exec R this (GetInteraction t) b = Inr (snd (getInteraction R t b))"

fun run :: "'i Rules \<Rightarrow> Position_t \<Rightarrow> Action list \<Rightarrow> 'i Board \<Rightarrow> error + 'i Board" where
  "run R this [] b = Inr b"
| "run R this (a # as) b =
     (case exec R this a b of Inl e \<Rightarrow> Inl e | Inr b' \<Rightarrow> run R this as b')"

section \<open>Recomputing the derived state\<close>

text \<open>
  \<open>Piece::makeTrajectory\<close> (lines 55--61), called through the owning pointer of the map
  node with key \<open>this\<close>.
\<close>

definition makeTrajectory :: "'i Rules \<Rightarrow> Position_t \<Rightarrow> 'i Board \<Rightarrow> error + 'i Board" where
  "makeTrajectory R this b =
     (case map_of (pieces b) this of
        None \<Rightarrow> Inl Undefined
      | Some pc \<Rightarrow>
          (let b1 = upd_piece this (\<lambda>q. q\<lparr>traj := {}\<rparr>) b;
               b2 = upd_piece this (\<lambda>q. q\<lparr>capt := {}\<rparr>) b1
           in case addCapturable this (pos pc) b2 of
                Inl e \<Rightarrow> Inl e
              | Inr b3 \<Rightarrow> run R this (calcTrajectory R (cls pc) b3 this) b3))"

text \<open>
  The loop over all pieces at the end of the constructor (lines 193--196), which the
  comment there wants as a function of its own because \<open>move()\<close> needs it as well. No
  call inside the loop adds or removes a node of \<open>pieces\<close>, so the loop visits the keys
  that the map has when it starts.
\<close>

fun recalculate_loop :: "'i Rules \<Rightarrow> Position_t list \<Rightarrow> 'i Board \<Rightarrow> error + 'i Board" where
  "recalculate_loop R [] b = Inr b"
| "recalculate_loop R (k # ks) b =
     (case makeTrajectory R k b of Inl e \<Rightarrow> Inl e | Inr b' \<Rightarrow> recalculate_loop R ks b')"

definition recalculate :: "'i Rules \<Rightarrow> 'i Board \<Rightarrow> error + 'i Board" where
  "recalculate R b = recalculate_loop R (map fst (pieces b)) b"

section \<open>Construction\<close>

text \<open>
  Modelled from the spec: the constructor \<open>Piece(Board &, Position_t const &, Suit const &)\<close>
  is declared at line 49 and defined outside the sources. It binds the piece to the
  given square and side; the two sets start empty and \<open>movenum\<close> starts at 0, as their
  declarations in lines 39--40 say.
\<close>

definition Piece_ctor :: "Position_t \<Rightarrow> Suit \<Rightarrow> string \<Rightarrow> Piece" where
  "Piece_ctor ps su c = \<lparr>pos = ps, suit = su, traj = {}, capt = {}, movenum = 0, cls = c\<rparr>"

text \<open>
  The first loop of the constructor (lines 184--187). \<open>factory.at\<close> throws
  \<open>std::out_of_range\<close> for a kind that is not a key. The function found there constructs
  a piece of its class on the slot's square and side, requesting that class's
  interactions from the board under construction.
\<close>

fun requestInteractions :: "'i Rules \<Rightarrow> type_index list \<Rightarrow> 'i Board \<Rightarrow> 'i Board" where
  "requestInteractions R [] b = b"
| "requestInteractions R (t # ts) b = requestInteractions R ts (snd (getInteraction R t b))"

fun place :: "'i Rules \<Rightarrow> (Position_t \<times> PieceClass_t \<times> Suit) list \<Rightarrow> 'i Board \<Rightarrow> error + 'i Board"
where
  "place R [] b = Inr b"
| "place R (slot # slots) b =
     (case map_of (factory b) (fst (snd slot)) of
        None \<Rightarrow> Inl OutOfRange
      | Some c \<Rightarrow>
          (let b1 = requestInteractions R (ctorInteractions R c) b;
               pc = Piece_ctor (fst slot) (snd (snd slot)) c
           in place R slots (b1\<lparr>pieces := map_assign (fst slot) pc (pieces b1)\<rparr>)))"

text \<open>\<open>Board::Board\<close> (lines 180--197). An exception leaves no board behind.\<close>

definition Board_ctor :: "'i Rules \<Rightarrow> BoardConfig \<Rightarrow> Factory_t \<Rightarrow> error + 'i Board" where
  "Board_ctor R conf fac =
     (case place R (initialLayout conf)
             \<lparr>config = conf, pieces = [], captures = [], factory = fac, interactions = []\<rparr> of
        Inl e \<Rightarrow> Inl e
      | Inr b \<Rightarrow> recalculate R b)"

section \<open>Moving\<close>

text \<open>The virtual call of \<open>moveUpdate\<close>: the override of the class, or the empty body.\<close>

definition call_moveUpdate ::
  "'i Rules \<Rightarrow> string \<Rightarrow> 'i Board \<Rightarrow> Position_t \<Rightarrow> Position_t \<Rightarrow> Position_t \<Rightarrow> Action list" where
  "call_moveUpdate R c b this from to =
     (case moveUpdate R c of None \<Rightarrow> [] | Some body \<Rightarrow> body b this from to)"

definition call_tick :: "'i Rules \<Rightarrow> string \<Rightarrow> 'i Board \<Rightarrow> Position_t \<Rightarrow> Position_t \<Rightarrow> Action list"
where
  "call_tick R c b this m = (case tick R c of None \<Rightarrow> [] | Some body \<Rightarrow> body b this m)"

text \<open>
  \<open>Piece::move\<close> (lines 123--130), on the piece owned by the node with key \<open>this\<close>.
  Its \<open>makeTrajectory\<close> looks the piece up under the new position, so the caller has to
  have moved the node to the key \<open>to\<close> before.
\<close>

definition Piece_move :: "'i Rules \<Rightarrow> Position_t \<Rightarrow> Position_t \<Rightarrow> 'i Board \<Rightarrow> error + 'i Board" where
  "Piece_move R this to b =
     (case map_of (pieces b) this of
        None \<Rightarrow> Inl Undefined
      | Some pc \<Rightarrow>
          (let from = pos pc;
               b1 = upd_piece this (\<lambda>q. q\<lparr>pos := to\<rparr>) b
           in case run R this (call_moveUpdate R (cls pc) b1 this from to) b1 of
                Inl e \<Rightarrow> Inl e
              | Inr b2 \<Rightarrow> makeTrajectory R this (upd_piece this (\<lambda>q. q\<lparr>movenum := movenum q + 1\<rparr>) b2)))"

text \<open>
  The virtual call of \<open>tick\<close> on every piece of the given keys, in their order, with the
  square of the piece that has moved.
\<close>

fun tick_loop :: "'i Rules \<Rightarrow> Position_t \<Rightarrow> Position_t list \<Rightarrow> 'i Board \<Rightarrow> error + 'i Board" where
  "tick_loop R m [] b = Inr b"
| "tick_loop R m (k # ks) b =
     (case map_of (pieces b) k of
        None \<Rightarrow> Inl Undefined
      | Some pc \<Rightarrow>
          (case run R k (call_tick R (cls pc) b k m) b of
             Inl e \<Rightarrow> Inl e
           | Inr b' \<Rightarrow> tick_loop R m ks b'))"

text \<open>
  Modelled from the spec: the global recalculation pass that follows a move is part of
  \<open>Board::move\<close> and \<open>Board::update\<close>, which are declared at lines 244--249 and defined
  outside the sources. By the spec the pass recomputes the derived state of every piece
  in position order and rebuilds the capture relation from scratch: what the relation
  held before the pass is discarded.
\<close>

definition global_recalculation :: "'i Rules \<Rightarrow> 'i Board \<Rightarrow> error + 'i Board" where
  "global_recalculation R b = recalculate R (b\<lparr>captures := []\<rparr>)"

text \<open>
  Modelled from the spec: \<open>Board::move\<close> is declared at line 249 and defined outside the
  sources. By the spec it succeeds only if \<open>source\<close> is occupied and \<open>target\<close> is in that
  piece's trajectory, and a failure changes nothing. On success the entry at \<open>source\<close> is
  removed and the piece is inserted again at \<open>target\<close>; no entry of the capture relation
  may refer to a node that is gone, so the relation is emptied with it. The piece takes
  its new position and reacts to having moved, which is \<open>Piece::move\<close> of the sources;
  then every other piece is told of the move, in position order, and the global
  recalculation pass runs.
\<close>

definition Board_move ::
  "'i Rules \<Rightarrow> Position_t \<Rightarrow> Position_t \<Rightarrow> 'i Board \<Rightarrow> error + bool \<times> 'i Board" where
  "Board_move R source target b =
     (case map_of (pieces b) source of
        None \<Rightarrow> Inr (False, b)
      | Some pc \<Rightarrow>
          if target \<notin> traj pc then Inr (False, b)
          else
            (let b1 = b\<lparr>pieces :=
                        map_assign target pc (filter (\<lambda>e. fst e \<noteq> source) (pieces b)),
                      captures := []\<rparr>
             in case Piece_move R target target b1 of
                  Inl e \<Rightarrow> Inl e
                | Inr b2 \<Rightarrow>
                    (case tick_loop R target
                            (filter (\<lambda>k. k \<noteq> target) (map fst (pieces b2))) b2 of
                       Inl e \<Rightarrow> Inl e
                     | Inr b3 \<Rightarrow>
                         (case global_recalculation R b3 of
                            Inl e \<Rightarrow> Inl e
                          | Inr b4 \<Rightarrow> Inr (True, b4)))))"

section \<open>Invariants and observations\<close>

text \<open>Every square in a trajectory or capturing set is on the board.\<close>

definition in_bounds :: "'i Board \<Rightarrow> bool" where
  "in_bounds b = (\<forall>e \<in> set (pieces b). \<forall>t \<in> traj (snd e) \<union> capt (snd e). valid b t)"

text \<open>Every piece is stored under the key that its position member holds.\<close>

definition coherent :: "'i Board \<Rightarrow> bool" where
  "coherent b = (\<forall>e \<in> set (pieces b). pos (snd e) = fst e)"

text \<open>
  Who stands where: for each node of \<open>pieces\<close> its key and the position, side, move
  count and class of its piece, without the derived sets.
\<close>

definition occupancy ::
  "'i Board \<Rightarrow> (Position_t \<times> Position_t \<times> Suit \<times> 64 word \<times> string) list" where
  "occupancy b =
     map (\<lambda>e. (fst e, pos (snd e), suit (snd e), movenum (snd e), cls (snd e))) (pieces b)"

text \<open>
  Rule hooks whose calls depend on the board only through its configuration and its
  occupancy: the read-only queries the spec lists for them (occupancy, bounds, side of
  the occupant).
\<close>

definition reads_occupancy_only :: "'i Rules \<Rightarrow> bool" where
  "reads_occupancy_only R =
     (\<forall>c b b' k. config b = config b' \<and> occupancy b = occupancy b' \<longrightarrow>
        calcTrajectory R c b k = calcTrajectory R c b' k)"

section \<open>Example boards\<close>

text \<open>
  A rule that steps one square up and captures diagonally, an interaction object that
  records how many pieces the board had when it was created, and an 8 by 8 board with one
  such piece in the corner.
\<close>

definition step_rules :: "nat Rules" where
  "step_rules =
     \<lparr>calcTrajectory =
        (\<lambda>c b k. [AddTrajectory (fst k, snd k + 1), AddCapturing (fst k + 1, snd k + 1)]),
      tick = (\<lambda>c. None),
      moveUpdate = (\<lambda>c. None),
      ctorInteractions = (\<lambda>c. []),
      newInteraction = (\<lambda>t b. length (pieces b))\<rparr>"

definition corner_config :: BoardConfig where
  "corner_config =
     \<lparr>boardWidth = 8, boardHeight = 8, initialLayout = [((0, 0), ''rook'', ''white'')]\<rparr>"

definition corner_factory :: Factory_t where
  "corner_factory = [(''rook'', ''Rook'')]"

definition corner_board :: "nat Board" where
  "corner_board =
     \<lparr>config = corner_config,
      pieces = [((0, 0), Piece_ctor (0, 0) ''white'' ''Rook'')],
      captures = [],
      factory = corner_factory,
      interactions = []\<rparr>"

text \<open>The corner board with a capture relation that holds an entry twice.\<close>

definition crowded_board :: "nat Board" where
  "crowded_board =
     corner_board\<lparr>captures := [((0, 0), (0, 0)), ((0, 0), (1, 1)), ((0, 0), (0, 0)), ((2, 2), (0, 0))]\<rparr>"

text \<open>
  The corner board in the middle of a move: the node of the piece has been re-keyed to
  its target \<open>(0, 1)\<close>, and \<open>Piece::move\<close> is about to run on it.
\<close>

definition rekeyed_board :: "nat Board" where
  "rekeyed_board = corner_board\<lparr>pieces := [((0, 1), Piece_ctor (0, 0) ''white'' ''Rook'')]\<rparr>"

text \<open>An 8 by 8 board whose layout put the piece on \<open>(9, 9)\<close>, outside the board.\<close>

definition stray_board :: "nat Board" where
  "stray_board = corner_board\<lparr>pieces := [((9, 9), Piece_ctor (9, 9) ''white'' ''Rook'')]\<rparr>"

text \<open>
  The corner board after one and after two calls of \<open>makeTrajectory\<close> on its piece, under
  \<open>step_rules\<close>.
\<close>

definition recomputed_once :: "nat Board" where
  "recomputed_once =
     corner_board
       \<lparr>pieces := [((0, 0), \<lparr>pos = (0, 0), suit = ''white'', traj = {(0, 1)}, capt = {(1, 1)},
                     movenum = 0, cls = ''Rook''\<rparr>)],
        captures := [((0, 0), (0, 0))]\<rparr>"

definition recomputed_twice :: "nat Board" where
  "recomputed_twice =
     corner_board
       \<lparr>pieces := [((0, 0), \<lparr>pos = (0, 0), suit = ''white'', traj = {(0, 1)}, capt = {(1, 1)},
                     movenum = 0, cls = ''Rook''\<rparr>)],
        captures := [((0, 0), (0, 0)), ((0, 0), (0, 0))]\<rparr>"

text \<open>
  Rules under which the constructor of a rook requests the castling interaction, and a
  layout with a rook in two opposite corners.
\<close>

definition castling_rules :: "nat Rules" where
  "castling_rules = step_rules\<lparr>ctorInteractions := (\<lambda>c. [''Castling''])\<rparr>"

definition duel_config :: BoardConfig where
  "duel_config =
     \<lparr>boardWidth = 8, boardHeight = 8,
      initialLayout = [((7, 7), ''rook'', ''black''), ((0, 0), ''rook'', ''white'')]\<rparr>"

text \<open>A layout that names the corner twice.\<close>

definition twice_config :: BoardConfig where
  "twice_config =
     \<lparr>boardWidth = 8, boardHeight = 8,
      initialLayout = [((0, 0), ''rook'', ''white''), ((0, 0), ''rook'', ''black'')]\<rparr>"


section \<open>Frame and totality lemmas\<close>

lemma map_of_map_upd:
  "map_of (map (\<lambda>(k, pc). if k = this then (k, f pc) else (k, pc)) xs) k' =
     (if k' = this then map_option f (map_of xs k') else map_of xs k')"
  by (induction xs) auto

lemma upd_piece_simps [simp]:
  "config (upd_piece this f b) = config b"
  "captures (upd_piece this f b) = captures b"
  "interactions (upd_piece this f b) = interactions b"
  "factory (upd_piece this f b) = factory b"
  "map fst (pieces (upd_piece this f b)) = map fst (pieces b)"
  by (auto simp: upd_piece_def)

lemma map_of_upd_piece:
  "map_of (pieces (upd_piece this f b)) k =
     (if k = this then map_option f (map_of (pieces b) k) else map_of (pieces b) k)"
  by (simp add: upd_piece_def map_of_map_upd)

lemma valid_upd_piece [simp]: "valid (upd_piece this f b) = valid b"
  by (simp add: valid_def fun_eq_iff)

lemma valid_iff:
  "valid b tile \<longleftrightarrow>
     0 \<le> fst tile \<and> fst tile < boardWidth (config b) \<and> 0 \<le> snd tile \<and> snd tile < boardHeight (config b)"
  by (auto simp: valid_def isWithin_def Origin_def)

lemma in_bounds_upd_piece:
  assumes "in_bounds b" and "\<And>pc t. t \<in> traj (f pc) \<union> capt (f pc) \<Longrightarrow> t \<in> traj pc \<union> capt pc \<or> valid b t"
  shows "in_bounds (upd_piece this f b)"
  unfolding in_bounds_def
proof (intro ballI)
  fix e t
  assume e: "e \<in> set (pieces (upd_piece this f b))"
    and t: "t \<in> traj (snd e) \<union> capt (snd e)"
  from e obtain k pc where old: "(k, pc) \<in> set (pieces b)"
    and e_eq: "e = (if k = this then (k, f pc) else (k, pc))"
    by (auto simp: upd_piece_def)
  show "valid (upd_piece this f b) t"
  proof (cases "k = this")
    case True
    with e_eq t have "t \<in> traj (f pc) \<union> capt (f pc)" by simp
    from assms(2) [OF this] old assms(1) show ?thesis
      by (force simp: in_bounds_def)
  next
    case False
    with e_eq t old assms(1) show ?thesis
      by (force simp: in_bounds_def)
  qed
qed

lemma in_bounds_addTrajectory: "in_bounds b \<Longrightarrow> in_bounds (addTrajectory this tile b)"
  unfolding addTrajectory_def by (auto intro!: in_bounds_upd_piece)

lemma in_bounds_addCapturing: "in_bounds b \<Longrightarrow> in_bounds (addCapturing this tile b)"
  unfolding addCapturing_def by (auto intro!: in_bounds_upd_piece)

lemma in_bounds_removeTrajectory: "in_bounds b \<Longrightarrow> in_bounds (removeTrajectory this tile b)"
  unfolding removeTrajectory_def by (auto intro!: in_bounds_upd_piece)

lemma in_bounds_removeCapturing: "in_bounds b \<Longrightarrow> in_bounds (removeCapturing this tile b)"
  unfolding removeCapturing_def by (auto intro!: in_bounds_upd_piece)

lemma addCapturable_frame:
  assumes "addCapturable this tile b = Inr b'"
  shows "config b' = config b" "pieces b' = pieces b" "interactions b' = interactions b" "factory b' = factory b"
  using assms by (auto simp: addCapturable_def split: if_splits option.splits)

lemma removeCapturable_frame:
  assumes "removeCapturable this tile b = Inr b'"
  shows "config b' = config b" "pieces b' = pieces b" "interactions b' = interactions b" "factory b' = factory b"
  using assms by (auto simp: removeCapturable_def Let_def split: if_splits option.splits)

lemma getInteraction_frame:
  "config (snd (getInteraction R t b)) = config b"
  "pieces (snd (getInteraction R t b)) = pieces b"
  "captures (snd (getInteraction R t b)) = captures b"
  "factory (snd (getInteraction R t b)) = factory b"
  by (auto simp: getInteraction_def Let_def split: option.splits)

lemma in_bounds_exec:
  assumes "in_bounds b" and "exec R this a b = Inr b'"
  shows "in_bounds b'"
proof (cases a)
  case (AddCapturable tile)
  with assms(2) have "config b' = config b" "pieces b' = pieces b"
    by (auto dest: addCapturable_frame)
  with assms(1) show ?thesis by (simp add: in_bounds_def valid_def)
next
  case (RemoveCapturable tile)
  with assms(2) have "config b' = config b" "pieces b' = pieces b"
    by (auto dest: removeCapturable_frame)
  with assms(1) show ?thesis by (simp add: in_bounds_def valid_def)
next
  case (GetInteraction t)
  with assms(2) have "config b' = config b" "pieces b' = pieces b"
    by (auto simp: getInteraction_frame)
  with assms(1) show ?thesis by (simp add: in_bounds_def valid_def)
qed (use assms in \<open>auto simp: in_bounds_addTrajectory in_bounds_addCapturing
      in_bounds_removeTrajectory in_bounds_removeCapturing\<close>)

lemma in_bounds_run:
  "in_bounds b \<Longrightarrow> run R this as b = Inr b' \<Longrightarrow> in_bounds b'"
proof (induction as arbitrary: b)
  case Nil
  then show ?case by simp
next
  case (Cons a as)
  then show ?case
    by (auto split: sum.splits dest: in_bounds_exec)
qed

lemma addTrajectory_piece:
  "map_of (pieces b) this = Some pc \<Longrightarrow>
   map_of (pieces (addTrajectory this tile b)) this =
     Some (pc\<lparr>traj := (if valid b tile then insert tile (traj pc) else traj pc)\<rparr>)"
  by (simp add: addTrajectory_def map_of_upd_piece)

lemma addCapturing_piece:
  "map_of (pieces b) this = Some pc \<Longrightarrow>
   map_of (pieces (addCapturing this tile b)) this =
     Some (pc\<lparr>capt := (if valid b tile then insert tile (capt pc) else capt pc)\<rparr>)"
  by (simp add: addCapturing_def map_of_upd_piece)

lemma occupancy_upd_piece:
  assumes "\<And>q. pos (f q) = pos q \<and> suit (f q) = suit q \<and> movenum (f q) = movenum q \<and> cls (f q) = cls q"
  shows "occupancy (upd_piece this f b) = occupancy b"
  using assms by (auto simp: occupancy_def upd_piece_def)

lemma occupancy_exec:
  assumes "exec R this a b = Inr b'"
  shows "occupancy b' = occupancy b"
proof (cases a)
  case (AddCapturable tile)
  with assms show ?thesis by (auto simp: occupancy_def dest: addCapturable_frame(2))
next
  case (RemoveCapturable tile)
  with assms show ?thesis by (auto simp: occupancy_def dest: removeCapturable_frame(2))
next
  case (GetInteraction t)
  with assms show ?thesis by (auto simp: occupancy_def getInteraction_frame)
qed (use assms in \<open>auto simp: addTrajectory_def removeTrajectory_def addCapturing_def
      removeCapturing_def occupancy_upd_piece\<close>)

lemma config_exec:
  assumes "exec R this a b = Inr b'"
  shows "config b' = config b"
proof (cases a)
  case (AddCapturable tile)
  with assms show ?thesis by (auto dest: addCapturable_frame(1))
next
  case (RemoveCapturable tile)
  with assms show ?thesis by (auto dest: removeCapturable_frame(1))
next
  case (GetInteraction t)
  with assms show ?thesis by (auto simp: getInteraction_frame)
qed (use assms in \<open>auto simp: addTrajectory_def removeTrajectory_def addCapturing_def
      removeCapturing_def\<close>)

lemma factory_exec:
  assumes "exec R this a b = Inr b'"
  shows "factory b' = factory b"
proof (cases a)
  case (AddCapturable tile)
  with assms show ?thesis by (auto dest: addCapturable_frame(4))
next
  case (RemoveCapturable tile)
  with assms show ?thesis by (auto dest: removeCapturable_frame(4))
next
  case (GetInteraction t)
  with assms show ?thesis by (auto simp: getInteraction_frame)
qed (use assms in \<open>auto simp: addTrajectory_def removeTrajectory_def addCapturing_def
      removeCapturing_def\<close>)

lemma run_frame:
  "run R this as b = Inr b' \<Longrightarrow>
     occupancy b' = occupancy b \<and> config b' = config b \<and> factory b' = factory b"
proof (induction as arbitrary: b)
  case Nil
  then show ?case by simp
next
  case (Cons a as)
  from Cons.prems obtain b1 where a: "exec R this a b = Inr b1" and r: "run R this as b1 = Inr b'"
    by (auto split: sum.splits)
  from Cons.IH [OF r] occupancy_exec [OF a] config_exec [OF a] factory_exec [OF a]
  show ?case by simp
qed

lemma occupancy_keys: "occupancy b' = occupancy b \<Longrightarrow> map fst (pieces b') = map fst (pieces b)"
proof -
  assume "occupancy b' = occupancy b"
  then have "map fst (occupancy b') = map fst (occupancy b)" by simp
  then show ?thesis by (simp add: occupancy_def comp_def)
qed

lemma occupancy_coherent:
  assumes "occupancy b' = occupancy b" and "coherent b"
  shows "coherent b'"
proof -
  from assms(1)
  have "map (\<lambda>t. fst (snd t) = fst t) (occupancy b') = map (\<lambda>t. fst (snd t) = fst t) (occupancy b)"
    by simp
  then have "map (\<lambda>e. pos (snd e) = fst e) (pieces b') = map (\<lambda>e. pos (snd e) = fst e) (pieces b)"
    by (simp add: occupancy_def comp_def)
  then have "set (map (\<lambda>e. pos (snd e) = fst e) (pieces b')) = set (map (\<lambda>e. pos (snd e) = fst e) (pieces b))"
    by simp
  with assms(2) show ?thesis unfolding coherent_def by (auto simp: image_iff)
qed

lemma map_of_map_snd:
  "map_of (map (\<lambda>e. (fst e, g (snd e))) xs) k = map_option g (map_of xs k)"
  by (induction xs) auto

lemma map_of_occupancy:
  "map_of (occupancy c) k = map_option (\<lambda>q. (pos q, suit q, movenum q, cls q)) (map_of (pieces c) k)"
  unfolding occupancy_def by (rule map_of_map_snd)

lemma occupancy_map_of:
  assumes "occupancy b' = occupancy b" and "map_of (pieces b) k = Some pc"
  shows "\<exists>pc'. map_of (pieces b') k = Some pc' \<and> pos pc' = pos pc \<and> suit pc' = suit pc \<and>
           movenum pc' = movenum pc \<and> cls pc' = cls pc"
proof -
  from assms(1) have "map_of (occupancy b') k = map_of (occupancy b) k" by simp
  then have "map_option (\<lambda>q. (pos q, suit q, movenum q, cls q)) (map_of (pieces b') k) =
     Some (pos pc, suit pc, movenum pc, cls pc)"
    using assms(2) by (simp add: map_of_occupancy)
  then show ?thesis by auto
qed

lemma find_pos_coherent:
  assumes "coherent b" and "map_of (pieces b) this = Some pc"
  shows "find_pos this b = Some this" and "pos pc = this"
proof -
  from assms(2) have "(this, pc) \<in> set (pieces b)" by (rule map_of_SomeD)
  with assms(1) show "pos pc = this" by (auto simp: coherent_def)
  with assms(2) show "find_pos this b = Some this" by (simp add: find_pos_def)
qed

lemma addCapturable_total:
  "find_pos this b = Some it \<Longrightarrow> \<exists>b'. addCapturable this tile b = Inr b'"
  by (simp add: addCapturable_def)

lemma exec_total:
  assumes "coherent b" and "map_of (pieces b) this = Some pc"
  shows "\<exists>b'. exec R this a b = Inr b'"
  using find_pos_coherent(1) [OF assms]
  by (cases a) (auto simp: addCapturable_def removeCapturable_def Let_def)

lemma run_total:
  assumes "coherent b" and "map_of (pieces b) this = Some pc"
  shows "\<exists>b'. run R this as b = Inr b'"
  using assms
proof (induction as arbitrary: b pc)
  case Nil
  then show ?case by simp
next
  case (Cons a as)
  from exec_total [OF Cons.prems] obtain b1 where a: "exec R this a b = Inr b1" by blast
  from occupancy_exec [OF a] have occ: "occupancy b1 = occupancy b" .
  from occ Cons.prems(1) have c1: "coherent b1" by (rule occupancy_coherent)
  from occupancy_map_of [OF occ Cons.prems(2)] obtain pc1
    where "map_of (pieces b1) this = Some pc1" by blast
  from Cons.IH [OF c1 this] a show ?case by auto
qed

lemma makeTrajectory_frame:
  assumes "makeTrajectory R this b = Inr b'"
  shows "occupancy b' = occupancy b \<and> config b' = config b \<and> factory b' = factory b"
proof -
  from assms obtain pc b3 where pc: "map_of (pieces b) this = Some pc"
    and a: "addCapturable this (pos pc)
              (upd_piece this (\<lambda>q. q\<lparr>capt := {}\<rparr>) (upd_piece this (\<lambda>q. q\<lparr>traj := {}\<rparr>) b)) = Inr b3"
    and r: "run R this (calcTrajectory R (cls pc) b3 this) b3 = Inr b'"
    by (auto simp: makeTrajectory_def Let_def split: option.splits sum.splits)
  have "occupancy b3 = occupancy b \<and> config b3 = config b \<and> factory b3 = factory b"
    using addCapturable_frame [OF a] by (simp add: occupancy_def occupancy_upd_piece [unfolded occupancy_def])
  with run_frame [OF r] show ?thesis by simp
qed

lemma makeTrajectory_total:
  assumes "coherent b" and "map_of (pieces b) this = Some pc"
  shows "\<exists>b'. makeTrajectory R this b = Inr b'"
proof -
  let ?b2 = "upd_piece this (\<lambda>q. q\<lparr>capt := {}\<rparr>) (upd_piece this (\<lambda>q. q\<lparr>traj := {}\<rparr>) b)"
  have occ: "occupancy ?b2 = occupancy b" by (simp add: occupancy_upd_piece)
  from occ assms(1) have c2: "coherent ?b2" by (rule occupancy_coherent)
  from occupancy_map_of [OF occ assms(2)] obtain pc2 where pc2: "map_of (pieces ?b2) this = Some pc2"
    and "pos pc2 = pos pc" by blast
  from addCapturable_total [OF find_pos_coherent(1) [OF c2 pc2]]
  obtain b3 where a: "addCapturable this (pos pc) ?b2 = Inr b3"
    by blast
  from addCapturable_frame [OF a] c2 pc2 have "coherent b3" "map_of (pieces b3) this = Some pc2"
    by (simp_all add: coherent_def)
  from run_total [OF this] obtain b' where "run R this (calcTrajectory R (cls pc) b3 this) b3 = Inr b'"
    by blast
  with assms(2) a show ?thesis by (simp add: makeTrajectory_def Let_def)
qed

lemma recalculate_loop_frame:
  "recalculate_loop R ks b = Inr b' \<Longrightarrow>
     occupancy b' = occupancy b \<and> config b' = config b \<and> factory b' = factory b"
proof (induction ks arbitrary: b)
  case Nil
  then show ?case by simp
next
  case (Cons k ks)
  from Cons.prems obtain b1 where m: "makeTrajectory R k b = Inr b1"
    and r: "recalculate_loop R ks b1 = Inr b'"
    by (auto split: sum.splits)
  from Cons.IH [OF r] makeTrajectory_frame [OF m] show ?case by simp
qed

lemma recalculate_loop_total:
  assumes "coherent b" and "set ks \<subseteq> fst ` set (pieces b)"
  shows "\<exists>b'. recalculate_loop R ks b = Inr b'"
  using assms
proof (induction ks arbitrary: b)
  case Nil
  then show ?case by simp
next
  case (Cons k ks)
  from Cons.prems(2) obtain pc where "map_of (pieces b) k = Some pc"
    by (cases "map_of (pieces b) k") (auto simp: map_of_eq_None_iff)
  from makeTrajectory_total [OF Cons.prems(1) this] obtain b1
    where m: "makeTrajectory R k b = Inr b1" by blast
  from makeTrajectory_frame [OF m] have occ: "occupancy b1 = occupancy b" by simp
  then have "map fst (pieces b1) = map fst (pieces b)" by (rule occupancy_keys)
  then have "set (map fst (pieces b1)) = set (map fst (pieces b))" by simp
  with Cons.prems(2) have ks: "set ks \<subseteq> fst ` set (pieces b1)" by auto
  from occ Cons.prems(1) have "coherent b1" by (rule occupancy_coherent)
  from Cons.IH [OF this ks] m show ?case by auto
qed

lemma recalculate_total:
  "coherent b \<Longrightarrow> \<exists>b'. recalculate R b = Inr b'"
  unfolding recalculate_def by (rule recalculate_loop_total) auto

lemma recalculate_frame:
  "recalculate R b = Inr b' \<Longrightarrow>
     occupancy b' = occupancy b \<and> config b' = config b \<and> factory b' = factory b"
  unfolding recalculate_def by (rule recalculate_loop_frame)

section \<open>The claims\<close>

lemma corner_piece:
  "map_of (pieces corner_board) (0, 0) = Some (Piece_ctor (0, 0) ''white'' ''Rook'')"
  by (simp add: corner_board_def)

lemma corner_in_bounds: "in_bounds corner_board"
  by (simp add: in_bounds_def corner_board_def Piece_ctor_def)

subsection \<open>Squares out of bounds are dropped\<close>

text \<open>
  C6. \<open>addTrajectory\<close> and \<open>addCapturing\<close> insert the candidate square into the piece's
  trajectory or capturing set if and only if \<open>Board::valid\<close> holds of it, that is, if and
  only if \<open>0 \<le> x < width\<close> and \<open>0 \<le> y < height\<close>. A candidate out of bounds is dropped:
  the board stays as it is, and the primitives have no error to return. Hence boards whose
  trajectory and capturing sets hold in-bounds squares only stay so under both primitives,
  and under every sequence of calls a rule hook makes.
\<close>

theorem addTrajectory_addCapturing_in_bounds:
  assumes "map_of (pieces b) this = Some pc"
  shows "(valid b tile \<longleftrightarrow>
           0 \<le> fst tile \<and> fst tile < boardWidth (config b) \<and>
           0 \<le> snd tile \<and> snd tile < boardHeight (config b)) \<and>
         map_of (pieces (addTrajectory this tile b)) this =
           Some (pc\<lparr>traj := (if valid b tile then insert tile (traj pc) else traj pc)\<rparr>) \<and>
         map_of (pieces (addCapturing this tile b)) this =
           Some (pc\<lparr>capt := (if valid b tile then insert tile (capt pc) else capt pc)\<rparr>) \<and>
         (\<not> valid b tile \<longrightarrow> addTrajectory this tile b = b \<and> addCapturing this tile b = b) \<and>
         (in_bounds b \<longrightarrow>
            in_bounds (addTrajectory this tile b) \<and> in_bounds (addCapturing this tile b)) \<and>
         (in_bounds b \<longrightarrow> (\<forall>as b'. run R this as b = Inr b' \<longrightarrow> in_bounds b'))"
proof (intro conjI)
  show "valid b tile \<longleftrightarrow>
           0 \<le> fst tile \<and> fst tile < boardWidth (config b) \<and>
           0 \<le> snd tile \<and> snd tile < boardHeight (config b)"
    by (rule valid_iff)
  show "map_of (pieces (addTrajectory this tile b)) this =
           Some (pc\<lparr>traj := (if valid b tile then insert tile (traj pc) else traj pc)\<rparr>)"
    using assms by (rule addTrajectory_piece)
  show "map_of (pieces (addCapturing this tile b)) this =
           Some (pc\<lparr>capt := (if valid b tile then insert tile (capt pc) else capt pc)\<rparr>)"
    using assms by (rule addCapturing_piece)
  show "\<not> valid b tile \<longrightarrow> addTrajectory this tile b = b \<and> addCapturing this tile b = b"
    by (simp add: addTrajectory_def addCapturing_def)
  show "in_bounds b \<longrightarrow>
          in_bounds (addTrajectory this tile b) \<and> in_bounds (addCapturing this tile b)"
    by (simp add: in_bounds_addTrajectory in_bounds_addCapturing)
  show "in_bounds b \<longrightarrow> (\<forall>as b'. run R this as b = Inr b' \<longrightarrow> in_bounds b')"
    by (blast intro: in_bounds_run)
qed

theorem addTrajectory_addCapturing_in_bounds_witness:
  "map_of (pieces (addTrajectory (0, 0) (0, 7) corner_board)) (0, 0) =
     Some ((Piece_ctor (0, 0) ''white'' ''Rook'')\<lparr>traj := {(0, 7)}\<rparr>) \<and>
   map_of (pieces (addCapturing (0, 0) (1, 1) corner_board)) (0, 0) =
     Some ((Piece_ctor (0, 0) ''white'' ''Rook'')\<lparr>capt := {(1, 1)}\<rparr>) \<and>
   addTrajectory (0, 0) (0, 8) corner_board = corner_board \<and>
   addCapturing (0, 0) (-1, 1) corner_board = corner_board \<and>
   in_bounds (addTrajectory (0, 0) (0, 7) corner_board) \<and>
   in_bounds (addCapturing (0, 0) (1, 1) corner_board)"
proof -
  have v: "valid corner_board (0, 7)" "valid corner_board (1, 1)"
    "\<not> valid corner_board (0, 8)" "\<not> valid corner_board (-1, 1)"
    by (simp_all add: valid_def isWithin_def Origin_def corner_board_def corner_config_def)
  have e: "traj (Piece_ctor (0, 0) ''white'' ''Rook'') = {}"
    "capt (Piece_ctor (0, 0) ''white'' ''Rook'') = {}"
    by (simp_all add: Piece_ctor_def)
  note w = addTrajectory_addCapturing_in_bounds [OF corner_piece]
  show ?thesis
    using w [of "(0, 7)"] w [of "(1, 1)"] w [of "(0, 8)"] w [of "(-1, 1)"] v corner_in_bounds
    by (simp add: e)
qed

subsection \<open>Looking up a square\<close>

text \<open>
  C9. \<open>Board::at\<close> returns null exactly for a square that is not a key of the position
  table, and otherwise the piece stored under that key; the board it leaves is the
  board it was called on. The overload on a const board returns the same.
\<close>

theorem at_null_iff_not_key:
  "(fst (at b sq) = None \<longleftrightarrow> sq \<notin> fst ` set (pieces b)) \<and>
   fst (at b sq) = map_of (pieces b) sq \<and>
   snd (at b sq) = b \<and>
   at_const b sq = fst (at b sq)"
proof -
  have r: "fst (at b sq) = map_of (pieces b) sq"
    by (cases "map_of (pieces b) sq") (simp_all add: at_def)
  have c: "at_const b sq = map_of (pieces b) sq"
    by (cases "map_of (pieces b) sq") (simp_all add: at_const_def)
  have u: "snd (at b sq) = b"
    by (simp add: at_def)
  from r c u show ?thesis
    by (simp add: map_of_eq_None_iff)
qed

subsection \<open>The capture relation as a sorted list\<close>

lemma removeCapturable_loop_remove1:
  assumes "stop \<le> length xs"
    and "\<forall>i. it \<le> i \<and> i < stop \<longrightarrow> fst (xs ! i) = k"
    and "(k, tile) \<notin> set (take it xs)"
    and "(k, tile) \<notin> set (drop stop xs)"
  shows "removeCapturable_loop it stop tile xs = remove1 (k, tile) xs"
  using assms
proof (induction it stop tile xs rule: removeCapturable_loop.induct)
  case (1 it stop tile xs)
  show ?case
  proof (cases "it < stop")
    case False
    then have "set (drop it xs) \<subseteq> set (drop stop xs)"
      by (intro set_drop_subset_set_drop) simp
    with "1.prems"(4) have "(k, tile) \<notin> set (drop it xs)" by blast
    moreover have "set xs = set (take it xs) \<union> set (drop it xs)"
      by (metis append_take_drop_id set_append)
    ultimately have "(k, tile) \<notin> set xs" using "1.prems"(3) by simp
    with False show ?thesis
      by (simp add: removeCapturable_loop.simps [of it stop] remove1_idem)
  next
    case True
    with "1.prems"(1) have len: "it < length xs" by simp
    from True "1.prems"(2) have key: "fst (xs ! it) = k" by simp
    have split: "xs = take it xs @ xs ! it # drop (Suc it) xs"
      using len by (rule id_take_nth_drop)
    show ?thesis
    proof (cases "snd (xs ! it) = tile")
      case hit: True
      with key have e: "xs ! it = (k, tile)" by (simp add: prod_eq_iff)
      have "remove1 (k, tile) xs = remove1 (k, tile) (take it xs @ xs ! it # drop (Suc it) xs)"
        using split by simp
      also have "\<dots> = take it xs @ drop (Suc it) xs"
        using "1.prems"(3) e by (simp add: remove1_append)
      finally show ?thesis
        using True hit by (simp add: removeCapturable_loop.simps [of it stop] erase_at_def)
    next
      case miss: False
      then have ne: "xs ! it \<noteq> (k, tile)" by (metis snd_conv)
      have "take (Suc it) xs = take it xs @ [xs ! it]"
        using len by (rule take_Suc_conv_app_nth)
      with "1.prems"(3) ne have t: "(k, tile) \<notin> set (take (Suc it) xs)" by auto
      have "removeCapturable_loop (Suc it) stop tile xs = remove1 (k, tile) xs"
        using True miss "1.prems"(1,2,4) t by (intro "1.IH") auto
      with True miss show ?thesis
        by (simp add: removeCapturable_loop.simps [of it stop])
    qed
  qed
qed

lemma sorted_takeWhile_less:
  fixes xs :: "('k::linorder \<times> 'v) list"
  assumes "sorted (map fst xs)"
  shows "\<forall>i. length (takeWhile (\<lambda>e. fst e < k) xs) \<le> i \<and> i < length xs \<longrightarrow> k \<le> fst (xs ! i)"
  using assms
proof (induction xs)
  case Nil
  then show ?case by simp
next
  case (Cons x xs)
  show ?case
  proof (cases "fst x < k")
    case True
    with Cons show ?thesis
      by (auto simp: nth_Cons split: nat.splits)
  next
    case False
    then have kx: "k \<le> fst x" by simp
    from Cons.prems have "\<forall>e \<in> set xs. fst x \<le> fst e" by simp
    with kx have "\<forall>e \<in> set xs. k \<le> fst e" by auto
    then have "\<forall>j. j < length xs \<longrightarrow> k \<le> fst (xs ! j)" by simp
    with kx False show ?thesis
      by (auto simp: nth_Cons split: nat.splits)
  qed
qed

lemma sorted_dropWhile_greater:
  fixes xs :: "('k::linorder \<times> 'v) list"
  assumes "sorted (map fst xs)" and "e \<in> set (dropWhile (\<lambda>e. \<not> k < fst e) xs)"
  shows "k < fst e"
  using assms
proof (induction xs)
  case Nil
  then show ?case by simp
next
  case (Cons x xs)
  show ?case
  proof (cases "k < fst x")
    case True
    with Cons.prems(2) have "e = x \<or> e \<in> set xs" by simp
    moreover from Cons.prems(1) have "\<forall>y \<in> set xs. fst x \<le> fst y" by simp
    ultimately have "fst x \<le> fst e" by auto
    with True show ?thesis by (rule less_le_trans)
  next
    case False
    with Cons.prems(2) have "e \<in> set (dropWhile (\<lambda>e. \<not> k < fst e) xs)" by simp
    moreover from Cons.prems(1) have "sorted (map fst xs)" by simp
    ultimately show ?thesis by (rule Cons.IH [rotated])
  qed
qed

lemma equal_range_remove1:
  fixes xs :: "(Position_t \<times> Position_t) list"
  assumes "sorted (map fst xs)"
  shows "removeCapturable_loop (fst (equal_range k xs)) (snd (equal_range k xs)) tile xs =
           remove1 (k, tile) xs"
proof -
  let ?P = "\<lambda>e :: Position_t \<times> Position_t. fst e < k"
  let ?Q = "\<lambda>e :: Position_t \<times> Position_t. \<not> k < fst e"
  let ?lo = "length (takeWhile ?P xs)"
  let ?hi = "length (takeWhile ?Q xs)"
  have er: "equal_range k xs = (?lo, ?hi)"
    by (simp add: equal_range_def)
  have len: "?hi \<le> length xs"
    by (rule length_takeWhile_le)
  have mid: "\<forall>i. ?lo \<le> i \<and> i < ?hi \<longrightarrow> fst (xs ! i) = k"
  proof (intro allI impI)
    fix i
    assume a: "?lo \<le> i \<and> i < ?hi"
    then have hi: "i < ?hi" and lo: "?lo \<le> i" by blast+
    from hi have "takeWhile ?Q xs ! i \<in> set (takeWhile ?Q xs)"
      by (rule nth_mem)
    then have "?Q (takeWhile ?Q xs ! i)"
      by (rule set_takeWhileD [THEN conjunct2])
    moreover from hi have "takeWhile ?Q xs ! i = xs ! i"
      by (rule takeWhile_nth)
    ultimately have le: "\<not> k < fst (xs ! i)" by simp
    from hi len have "i < length xs" by (rule less_le_trans)
    with lo sorted_takeWhile_less [OF assms, of k] have "k \<le> fst (xs ! i)" by blast
    with le show "fst (xs ! i) = k" by (rule_tac antisym) (simp_all add: not_less)
  qed
  have "take ?lo xs = takeWhile ?P xs"
    by (rule takeWhile_eq_take [symmetric])
  then have before: "(k, tile) \<notin> set (take ?lo xs)"
    using set_takeWhileD [of "(k, tile)" ?P xs] by auto
  have "drop ?hi xs = dropWhile ?Q xs"
    by (rule dropWhile_eq_drop [symmetric])
  then have after: "(k, tile) \<notin> set (drop ?hi xs)"
    using sorted_dropWhile_greater [OF assms, of "(k, tile)" k] by auto
  from removeCapturable_loop_remove1 [OF len mid before after] er show ?thesis
    by simp
qed

lemma set_mm_insert [simp]: "set (mm_insert e xs) = insert e (set xs)"
  by (induction xs) auto

lemma mset_mm_insert [simp]: "mset (mm_insert e xs) = add_mset e (mset xs)"
  by (induction xs) auto

lemma length_mm_insert [simp]: "length (mm_insert e xs) = Suc (length xs)"
  by (induction xs) auto

lemma sorted_mm_insert:
  "sorted (map fst xs) \<Longrightarrow> sorted (map fst (mm_insert e xs))"
  by (induction xs) auto

lemma sorted_remove1_keys:
  "sorted (map fst xs) \<Longrightarrow> sorted (map fst (remove1 e xs))"
proof (induction xs)
  case Nil
  then show ?case by simp
next
  case (Cons x xs)
  then show ?case
    using notin_set_remove1 [of _ xs e] by (auto simp: image_iff)
qed

text \<open>
  C10. One call of \<open>removeCapturable\<close> erases at most one entry of the capture
  relation: the first stored entry of this piece with the given square, also when
  several identical entries are stored. Every other entry, of this or of another piece,
  stays where it is, and nothing else of the board changes.
\<close>

theorem removeCapturable_erases_first_entry:
  assumes "find_pos this b = Some it" and "sorted (map fst (captures b))"
  shows "\<exists>b'. removeCapturable this tile b = Inr b' \<and>
           captures b' = remove1 (it, tile) (captures b) \<and>
           mset (captures b') = mset (captures b) - {#(it, tile)#} \<and>
           length (captures b) \<le> Suc (length (captures b')) \<and>
           sorted (map fst (captures b')) \<and>
           pieces b' = pieces b \<and> config b' = config b \<and>
           interactions b' = interactions b \<and> factory b' = factory b"
proof -
  let ?b' = "b\<lparr>captures := remove1 (it, tile) (captures b)\<rparr>"
  have r: "removeCapturable this tile b = Inr ?b'"
    using assms by (simp add: removeCapturable_def Let_def equal_range_remove1)
  have l: "length (captures b) \<le> Suc (length (remove1 (it, tile) (captures b)))"
    by (auto simp: length_remove1)
  have s: "sorted (map fst (remove1 (it, tile) (captures b)))"
    using assms(2) by (rule sorted_remove1_keys)
  from r l s show ?thesis by simp
qed

theorem removeCapturable_erases_first_entry_witness:
  "\<exists>b'. removeCapturable (0, 0) (0, 0) crowded_board = Inr b' \<and>
     captures b' = [((0, 0), (1, 1)), ((0, 0), (0, 0)), ((2, 2), (0, 0))] \<and>
     pieces b' = pieces crowded_board"
proof -
  have f: "find_pos (0, 0) crowded_board = Some (0, 0)"
    by (simp add: find_pos_def crowded_board_def corner_board_def Piece_ctor_def)
  have s: "sorted (map fst (captures crowded_board))"
    by (simp add: crowded_board_def)
  from removeCapturable_erases_first_entry [OF f s, of "(0, 0)"] show ?thesis
    by (auto simp: crowded_board_def)
qed

subsection \<open>The interaction registry\<close>

lemma getInteraction_absent:
  "map_of (interactions b) t = None \<Longrightarrow>
   getInteraction R t b =
     (newInteraction R t b, b\<lparr>interactions := interactions b @ [(t, newInteraction R t b)]\<rparr>)"
  by (simp add: getInteraction_def Let_def)

lemma getInteraction_present:
  "map_of (interactions b) t = Some obj \<Longrightarrow> getInteraction R t b = (obj, b)"
  by (simp add: getInteraction_def)

lemma getInteraction_stored:
  "map_of (interactions (snd (getInteraction R t b))) t = Some (fst (getInteraction R t b))"
  by (cases "map_of (interactions b) t")
     (simp_all add: getInteraction_absent getInteraction_present map_add_def)

lemma getInteraction_keeps:
  assumes "map_of (interactions b) t' = Some obj"
  shows "map_of (interactions (snd (getInteraction R t b))) t' = Some obj"
proof (cases "map_of (interactions b) t")
  case None
  with assms have "t' \<noteq> t" by auto
  with None assms show ?thesis by (simp add: getInteraction_absent map_add_def)
next
  case (Some a)
  with assms show ?thesis by (simp add: getInteraction_present)
qed

lemma getInteraction_distinct:
  assumes "distinct (map fst (interactions b))"
  shows "distinct (map fst (interactions (snd (getInteraction R t b))))"
proof (cases "map_of (interactions b) t")
  case None
  then have "t \<notin> fst ` set (interactions b)" by (simp add: map_of_eq_None_iff)
  with None assms show ?thesis by (simp add: getInteraction_absent)
next
  case (Some a)
  with assms show ?thesis by (simp add: getInteraction_present)
qed

lemma interactions_exec:
  assumes "exec R this a b = Inr b'" and "map_of (interactions b) t = Some obj"
  shows "map_of (interactions b') t = Some obj"
proof (cases a)
  case (AddCapturable tile)
  with assms show ?thesis by (auto dest: addCapturable_frame(3))
next
  case (RemoveCapturable tile)
  with assms show ?thesis by (auto dest: removeCapturable_frame(3))
next
  case (GetInteraction t')
  with assms show ?thesis by (auto simp: getInteraction_keeps)
qed (use assms in \<open>auto simp: addTrajectory_def removeTrajectory_def addCapturing_def
      removeCapturing_def\<close>)

lemma interactions_run:
  "run R this as b = Inr b' \<Longrightarrow> map_of (interactions b) t = Some obj \<Longrightarrow>
     map_of (interactions b') t = Some obj"
proof (induction as arbitrary: b)
  case Nil
  then show ?case by simp
next
  case (Cons a as)
  from Cons.prems(1) obtain b1 where a: "exec R this a b = Inr b1"
    and r: "run R this as b1 = Inr b'"
    by (auto split: sum.splits)
  from interactions_exec [OF a Cons.prems(2)] have "map_of (interactions b1) t = Some obj" .
  with r show ?case by (rule Cons.IH)
qed

lemma makeTrajectory_unfold:
  assumes "makeTrajectory R this b = Inr b'"
  obtains pc b3 where "map_of (pieces b) this = Some pc"
    and "addCapturable this (pos pc)
           (upd_piece this (\<lambda>q. q\<lparr>capt := {}\<rparr>) (upd_piece this (\<lambda>q. q\<lparr>traj := {}\<rparr>) b)) = Inr b3"
    and "run R this (calcTrajectory R (cls pc) b3 this) b3 = Inr b'"
proof (cases "map_of (pieces b) this")
  case None
  with assms show ?thesis by (simp add: makeTrajectory_def)
next
  case (Some pc)
  show ?thesis
  proof (cases "addCapturable this (pos pc)
           (upd_piece this (\<lambda>q. q\<lparr>capt := {}\<rparr>) (upd_piece this (\<lambda>q. q\<lparr>traj := {}\<rparr>) b))")
    case (Inl e)
    with Some assms show ?thesis by (simp add: makeTrajectory_def Let_def)
  next
    case (Inr b3)
    with Some assms have "run R this (calcTrajectory R (cls pc) b3 this) b3 = Inr b'"
      by (simp add: makeTrajectory_def Let_def)
    with Some Inr show ?thesis by (rule that)
  qed
qed

lemma interactions_makeTrajectory:
  assumes "makeTrajectory R this b = Inr b'" and "map_of (interactions b) t = Some obj"
  shows "map_of (interactions b') t = Some obj"
proof -
  from assms(1) obtain pc b3 where "map_of (pieces b) this = Some pc" and
    a: "addCapturable this (pos pc)
           (upd_piece this (\<lambda>q. q\<lparr>capt := {}\<rparr>) (upd_piece this (\<lambda>q. q\<lparr>traj := {}\<rparr>) b)) = Inr b3"
    and r: "run R this (calcTrajectory R (cls pc) b3 this) b3 = Inr b'"
    by (rule makeTrajectory_unfold)
  from addCapturable_frame(3) [OF a] assms(2) have "map_of (interactions b3) t = Some obj" by simp
  with r show ?thesis by (rule interactions_run)
qed

lemma interactions_recalculate_loop:
  "recalculate_loop R ks b = Inr b' \<Longrightarrow> map_of (interactions b) t = Some obj \<Longrightarrow>
     map_of (interactions b') t = Some obj"
proof (induction ks arbitrary: b)
  case Nil
  then show ?case by simp
next
  case (Cons k ks)
  from Cons.prems(1) obtain b1 where m: "makeTrajectory R k b = Inr b1"
    and r: "recalculate_loop R ks b1 = Inr b'"
    by (auto split: sum.splits)
  from interactions_makeTrajectory [OF m Cons.prems(2)] r show ?case by (rule Cons.IH [rotated])
qed

lemma Piece_move_unfold:
  assumes "Piece_move R this to b = Inr b'"
  obtains pc b2 where "map_of (pieces b) this = Some pc"
    and "run R this (call_moveUpdate R (cls pc) (upd_piece this (\<lambda>q. q\<lparr>pos := to\<rparr>) b) this (pos pc) to)
           (upd_piece this (\<lambda>q. q\<lparr>pos := to\<rparr>) b) = Inr b2"
    and "makeTrajectory R this (upd_piece this (\<lambda>q. q\<lparr>movenum := movenum q + 1\<rparr>) b2) = Inr b'"
proof (cases "map_of (pieces b) this")
  case None
  with assms show ?thesis by (simp add: Piece_move_def)
next
  case (Some pc)
  let ?b1 = "upd_piece this (\<lambda>q. q\<lparr>pos := to\<rparr>) b"
  show ?thesis
  proof (cases "run R this (call_moveUpdate R (cls pc) ?b1 this (pos pc) to) ?b1")
    case (Inl e)
    with Some assms show ?thesis by (simp add: Piece_move_def Let_def)
  next
    case (Inr b2)
    with Some assms
    have "makeTrajectory R this (upd_piece this (\<lambda>q. q\<lparr>movenum := movenum q + 1\<rparr>) b2) = Inr b'"
      by (simp add: Piece_move_def Let_def)
    with Some Inr show ?thesis by (rule that)
  qed
qed

lemma interactions_Piece_move:
  assumes "Piece_move R this to b = Inr b'" and "map_of (interactions b) t = Some obj"
  shows "map_of (interactions b') t = Some obj"
proof -
  from assms(1) obtain pc b2 where "map_of (pieces b) this = Some pc" and
    r: "run R this (call_moveUpdate R (cls pc) (upd_piece this (\<lambda>q. q\<lparr>pos := to\<rparr>) b) this (pos pc) to)
           (upd_piece this (\<lambda>q. q\<lparr>pos := to\<rparr>) b) = Inr b2"
    and m: "makeTrajectory R this (upd_piece this (\<lambda>q. q\<lparr>movenum := movenum q + 1\<rparr>) b2) = Inr b'"
    by (rule Piece_move_unfold)
  from assms(2) have "map_of (interactions (upd_piece this (\<lambda>q. q\<lparr>pos := to\<rparr>) b)) t = Some obj"
    by simp
  with r have "map_of (interactions b2) t = Some obj" by (rule interactions_run)
  then have "map_of (interactions (upd_piece this (\<lambda>q. q\<lparr>movenum := movenum q + 1\<rparr>) b2)) t = Some obj"
    by simp
  with m show ?thesis by (rule interactions_makeTrajectory)
qed

lemmas eval_defs =
  Piece_move_def makeTrajectory_def upd_piece_def addCapturable_def find_pos_def valid_def
  isWithin_def Origin_def call_moveUpdate_def addTrajectory_def addCapturing_def
  Piece_ctor_def Let_def getInteraction_def recalculate_def

lemmas corner_defs = step_rules_def corner_board_def corner_config_def corner_factory_def

text \<open>
  C7. The registry holds at most one object per interaction type. The first
  \<open>getInteraction\<close> for a type constructs the object from the board and stores it; every
  later request returns the stored object and changes nothing. Requests for other types
  leave a stored object alone, and so do \<open>Piece::move\<close> and the recalculation of all
  pieces, whatever the rule hooks call.
\<close>

theorem getInteraction_single_instance:
  "(map_of (interactions b) t = None \<longrightarrow>
      getInteraction R t b =
        (newInteraction R t b, b\<lparr>interactions := interactions b @ [(t, newInteraction R t b)]\<rparr>)) \<and>
   (\<forall>obj. map_of (interactions b) t = Some obj \<longrightarrow> getInteraction R t b = (obj, b)) \<and>
   map_of (interactions (snd (getInteraction R t b))) t = Some (fst (getInteraction R t b)) \<and>
   getInteraction R t (snd (getInteraction R t b)) =
     (fst (getInteraction R t b), snd (getInteraction R t b)) \<and>
   (distinct (map fst (interactions b)) \<longrightarrow>
      distinct (map fst (interactions (snd (getInteraction R t b))))) \<and>
   (\<forall>t' obj. map_of (interactions b) t' = Some obj \<longrightarrow>
      map_of (interactions (snd (getInteraction R t' b))) t' = Some obj \<and>
      map_of (interactions (snd (getInteraction R t b))) t' = Some obj \<and>
      (\<forall>this to b'. Piece_move R this to b = Inr b' \<longrightarrow>
         map_of (interactions b') t' = Some obj) \<and>
      (\<forall>b'. recalculate R b = Inr b' \<longrightarrow> map_of (interactions b') t' = Some obj))"
proof (intro conjI allI impI)
  show "getInteraction R t (snd (getInteraction R t b)) =
     (fst (getInteraction R t b), snd (getInteraction R t b))"
    using getInteraction_stored [of R t b] by (simp add: getInteraction_present)
next
  fix t' obj this to b'
  assume "map_of (interactions b) t' = Some obj" and "Piece_move R this to b = Inr b'"
  then show "map_of (interactions b') t' = Some obj"
    by (rule interactions_Piece_move [rotated])
next
  fix t' obj b'
  assume "map_of (interactions b) t' = Some obj" and "recalculate R b = Inr b'"
  then show "map_of (interactions b') t' = Some obj"
    unfolding recalculate_def by (rule interactions_recalculate_loop [rotated])
qed (simp_all add: getInteraction_absent getInteraction_present getInteraction_stored
       getInteraction_distinct getInteraction_keeps)

theorem getInteraction_single_instance_witness:
  "getInteraction step_rules ''Castling'' corner_board =
     (1, corner_board\<lparr>interactions := [(''Castling'', 1)]\<rparr>) \<and>
   getInteraction step_rules ''Castling'' (corner_board\<lparr>interactions := [(''Castling'', 1)]\<rparr>) =
     (1, corner_board\<lparr>interactions := [(''Castling'', 1)]\<rparr>) \<and>
   (\<exists>b'. Piece_move step_rules (0, 1) (0, 1) (rekeyed_board\<lparr>interactions := [(''Castling'', 1)]\<rparr>) = Inr b' \<and>
      map_of (interactions b') ''Castling'' = Some 1)"
proof -
  let ?b = "corner_board\<lparr>interactions := [(''Castling'', 1)]\<rparr>"
  let ?r = "rekeyed_board\<lparr>interactions := [(''Castling'', 1)]\<rparr>"
  have n: "map_of (interactions corner_board) ''Castling'' = None"
    by (simp add: corner_board_def)
  have c: "newInteraction step_rules ''Castling'' corner_board = 1"
    by (simp add: corner_defs)
  have s: "map_of (interactions ?b) ''Castling'' = Some 1" "map_of (interactions ?r) ''Castling'' = Some 1"
    by simp_all
  obtain b' where m: "Piece_move step_rules (0, 1) (0, 1) ?r = Inr b'"
    by (simp add: eval_defs corner_defs rekeyed_board_def)
  from getInteraction_single_instance [of corner_board "''Castling''" step_rules] n c
  have 1: "getInteraction step_rules ''Castling'' corner_board = (1, ?b)"
    by (simp add: corner_board_def)
  from getInteraction_single_instance [of ?b "''Castling''" step_rules] s(1)
  have 2: "getInteraction step_rules ''Castling'' ?b = (1, ?b)"
    by blast
  from getInteraction_single_instance [of ?r "''Castling''" step_rules] s(2) m
  have 3: "map_of (interactions b') ''Castling'' = Some 1"
    by blast
  from 1 2 3 m show ?thesis by blast
qed

subsection \<open>The move counter\<close>

lemma Piece_move_piece:
  assumes "Piece_move R this to b = Inr b'" and "map_of (pieces b) this = Some pc"
  shows "\<exists>pc'. map_of (pieces b') this = Some pc' \<and> movenum pc' = movenum pc + 1 \<and>
           pos pc' = to \<and> suit pc' = suit pc \<and> cls pc' = cls pc"
proof -
  let ?b1 = "upd_piece this (\<lambda>q. q\<lparr>pos := to\<rparr>) b"
  from assms(1) obtain pc0 b2 where "map_of (pieces b) this = Some pc0"
    and r: "run R this (call_moveUpdate R (cls pc0) ?b1 this (pos pc0) to) ?b1 = Inr b2"
    and m: "makeTrajectory R this (upd_piece this (\<lambda>q. q\<lparr>movenum := movenum q + 1\<rparr>) b2) = Inr b'"
    by (rule Piece_move_unfold)
  have 1: "map_of (pieces ?b1) this = Some (pc\<lparr>pos := to\<rparr>)"
    using assms(2) by (simp add: map_of_upd_piece)
  from run_frame [OF r] have "occupancy b2 = occupancy ?b1" by simp
  from occupancy_map_of [OF this 1] obtain pc2 where 2: "map_of (pieces b2) this = Some pc2"
    and p2: "pos pc2 = to" "suit pc2 = suit pc" "movenum pc2 = movenum pc" "cls pc2 = cls pc"
    by auto
  let ?b3 = "upd_piece this (\<lambda>q. q\<lparr>movenum := movenum q + 1\<rparr>) b2"
  have 3: "map_of (pieces ?b3) this = Some (pc2\<lparr>movenum := movenum pc2 + 1\<rparr>)"
    using 2 by (simp add: map_of_upd_piece)
  from makeTrajectory_frame [OF m] have "occupancy b' = occupancy ?b3" by simp
  from occupancy_map_of [OF this 3] p2 show ?thesis by auto
qed

lemma Piece_move_others:
  assumes "Piece_move R this to b = Inr b'" and "map_of (pieces b) k = Some q" and "k \<noteq> this"
  shows "\<exists>q'. map_of (pieces b') k = Some q' \<and> movenum q' = movenum q \<and>
           pos q' = pos q \<and> suit q' = suit q \<and> cls q' = cls q"
proof -
  let ?b1 = "upd_piece this (\<lambda>q. q\<lparr>pos := to\<rparr>) b"
  from assms(1) obtain pc0 b2 where "map_of (pieces b) this = Some pc0"
    and r: "run R this (call_moveUpdate R (cls pc0) ?b1 this (pos pc0) to) ?b1 = Inr b2"
    and m: "makeTrajectory R this (upd_piece this (\<lambda>q. q\<lparr>movenum := movenum q + 1\<rparr>) b2) = Inr b'"
    by (rule Piece_move_unfold)
  have 1: "map_of (pieces ?b1) k = Some q"
    using assms(2,3) by (simp add: map_of_upd_piece)
  from run_frame [OF r] have "occupancy b2 = occupancy ?b1" by simp
  from occupancy_map_of [OF this 1] obtain q2 where 2: "map_of (pieces b2) k = Some q2"
    and p2: "pos q2 = pos q" "suit q2 = suit q" "movenum q2 = movenum q" "cls q2 = cls q"
    by auto
  let ?b3 = "upd_piece this (\<lambda>q. q\<lparr>movenum := movenum q + 1\<rparr>) b2"
  have 3: "map_of (pieces ?b3) k = Some q2"
    using 2 assms(3) by (simp add: map_of_upd_piece)
  from makeTrajectory_frame [OF m] have "occupancy b' = occupancy ?b3" by simp
  from occupancy_map_of [OF this 3] p2 show ?thesis by auto
qed

lemma unat_succ_64:
  fixes w :: "64 word"
  assumes "w \<noteq> - 1"
  shows "unat (w + 1) = unat w + 1"
proof -
  from assms have "1 + w \<noteq> 0"
    by (metis add.commute add_eq_0_iff)
  then have "unat (1 + w) = Suc (unat w)" by (rule unatSuc)
  then show ?thesis by (simp add: add.commute)
qed

lemma funpow_succ_64:
  fixes w :: "64 word"
  shows "((\<lambda>w. w + 1) ^^ n) w = w + of_nat n"
  by (induction n) simp_all

lemma unat_funpow_succ_64:
  assumes "n < 2 ^ 64"
  shows "unat (((\<lambda>w :: 64 word. w + 1) ^^ n) 0) = n"
proof -
  have "unat (of_nat n :: 64 word) = n"
    using assms by (simp add: unsigned_of_nat take_bit_nat_eq_self)
  then show ?thesis by (simp add: funpow_succ_64)
qed

lemma unat_succ_below_max_64:
  fixes w :: "64 word"
  assumes "unat w < 2 ^ 64 - 1"
  shows "unat (w + 1) = unat w + 1"
proof (rule unat_succ_64)
  show "w \<noteq> - 1"
  proof
    assume "w = - 1"
    then have "w = 18446744073709551615" by simp
    then have "unat w = 18446744073709551615" by simp
    with assms show False by simp
  qed
qed


lemma occupancy_movenum:
  assumes "occupancy b' = occupancy b"
  shows "map (\<lambda>e. movenum (snd e)) (pieces b') = map (\<lambda>e. movenum (snd e)) (pieces b)"
proof -
  from assms have "map (\<lambda>t. fst (snd (snd (snd t)))) (occupancy b') =
      map (\<lambda>t. fst (snd (snd (snd t)))) (occupancy b)"
    by simp
  then show ?thesis by (simp add: occupancy_def comp_def)
qed

text \<open>
  C8. \<open>Piece::move\<close> adds one to the move counter of the piece it runs on. The counter
  is a \<open>std::size_t\<close> that starts at 0 in a new piece and that nothing else writes: the
  counters of the other pieces stay, and neither \<open>makeTrajectory\<close>, nor the recalculation
  of all pieces, nor any sequence of calls from a rule hook changes a counter. So a move
  takes a count below the maximum of the type to exactly one more, a freshly constructed
  piece has count 1 after its first move, and \<open>n\<close> increments of the counter of a new
  piece leave it at \<open>n\<close>, for every \<open>n\<close> below \<open>2\<^sup>6\<^sup>4\<close>.
\<close>

theorem Piece_move_increments_movenum:
  assumes "Piece_move R this to b = Inr b'" and "map_of (pieces b) this = Some pc"
  shows "(\<exists>pc'. map_of (pieces b') this = Some pc' \<and> movenum pc' = movenum pc + 1 \<and>
            (unat (movenum pc) < 2 ^ 64 - 1 \<longrightarrow>
               unat (movenum pc') = unat (movenum pc) + 1 \<and>
               unat (movenum pc) < unat (movenum pc')) \<and>
            (pc = Piece_ctor ps su c \<longrightarrow> movenum pc' = 1 \<and> unat (movenum pc') = 1)) \<and>
         (\<forall>k q. k \<noteq> this \<and> map_of (pieces b) k = Some q \<longrightarrow>
            (\<exists>q'. map_of (pieces b') k = Some q' \<and> movenum q' = movenum q)) \<and>
         (\<forall>k b''. makeTrajectory R k b = Inr b'' \<longrightarrow>
            map (\<lambda>e. movenum (snd e)) (pieces b'') = map (\<lambda>e. movenum (snd e)) (pieces b)) \<and>
         (\<forall>b''. recalculate R b = Inr b'' \<longrightarrow>
            map (\<lambda>e. movenum (snd e)) (pieces b'') = map (\<lambda>e. movenum (snd e)) (pieces b)) \<and>
         (\<forall>k as b''. run R k as b = Inr b'' \<longrightarrow>
            map (\<lambda>e. movenum (snd e)) (pieces b'') = map (\<lambda>e. movenum (snd e)) (pieces b)) \<and>
         (\<forall>n. n < 2 ^ 64 \<longrightarrow>
            unat (((\<lambda>w. w + 1) ^^ n) (movenum (Piece_ctor ps su c))) = n)"
proof (intro conjI allI impI)
  from Piece_move_piece [OF assms] obtain pc' where p: "map_of (pieces b') this = Some pc'"
    and m: "movenum pc' = movenum pc + 1" by blast
  have 1: "unat (movenum pc) < 2 ^ 64 - 1 \<longrightarrow>
      unat (movenum pc') = unat (movenum pc) + 1 \<and> unat (movenum pc) < unat (movenum pc')"
  proof
    assume "unat (movenum pc) < 2 ^ 64 - 1"
    then have "unat (movenum pc + 1) = unat (movenum pc) + 1"
      by (rule unat_succ_below_max_64)
    then show "unat (movenum pc') = unat (movenum pc) + 1 \<and> unat (movenum pc) < unat (movenum pc')"
      unfolding m by simp
  qed
  have 3: "pc = Piece_ctor ps su c \<longrightarrow> movenum pc' = 1 \<and> unat (movenum pc') = 1"
    unfolding m by (simp add: Piece_ctor_def)
  show "\<exists>pc'. map_of (pieces b') this = Some pc' \<and> movenum pc' = movenum pc + 1 \<and>
            (unat (movenum pc) < 2 ^ 64 - 1 \<longrightarrow>
               unat (movenum pc') = unat (movenum pc) + 1 \<and>
               unat (movenum pc) < unat (movenum pc')) \<and>
            (pc = Piece_ctor ps su c \<longrightarrow> movenum pc' = 1 \<and> unat (movenum pc') = 1)"
    by (rule exI [of _ pc']) (intro conjI p m 1 3)
next
  fix k q
  assume "k \<noteq> this \<and> map_of (pieces b) k = Some q"
  with Piece_move_others [OF assms(1), of k q]
  show "\<exists>q'. map_of (pieces b') k = Some q' \<and> movenum q' = movenum q" by blast
next
  fix k b''
  assume "makeTrajectory R k b = Inr b''"
  from makeTrajectory_frame [OF this] have "occupancy b'' = occupancy b" by simp
  then show "map (\<lambda>e. movenum (snd e)) (pieces b'') = map (\<lambda>e. movenum (snd e)) (pieces b)"
    by (rule occupancy_movenum)
next
  fix b''
  assume "recalculate R b = Inr b''"
  from recalculate_frame [OF this] have "occupancy b'' = occupancy b" by simp
  then show "map (\<lambda>e. movenum (snd e)) (pieces b'') = map (\<lambda>e. movenum (snd e)) (pieces b)"
    by (rule occupancy_movenum)
next
  fix k as b''
  assume "run R k as b = Inr b''"
  from run_frame [OF this] have "occupancy b'' = occupancy b" by simp
  then show "map (\<lambda>e. movenum (snd e)) (pieces b'') = map (\<lambda>e. movenum (snd e)) (pieces b)"
    by (rule occupancy_movenum)
next
  fix n :: nat
  assume "n < 2 ^ 64"
  then have "unat (((\<lambda>w :: 64 word. w + 1) ^^ n) 0) = n"
    by (rule unat_funpow_succ_64)
  then show "unat (((\<lambda>w. w + 1) ^^ n) (movenum (Piece_ctor ps su c))) = n"
    by (simp add: Piece_ctor_def)
qed

theorem Piece_move_increments_movenum_witness:
  "Piece_move step_rules (0, 1) (0, 1) rekeyed_board =
     Inr (corner_board
       \<lparr>pieces := [((0, 1), \<lparr>pos = (0, 1), suit = ''white'', traj = {(0, 2)}, capt = {(1, 2)},
                     movenum = 1, cls = ''Rook''\<rparr>)],
        captures := [((0, 1), (0, 1))]\<rparr>) \<and>
   (\<exists>b' pc'. Piece_move step_rules (0, 1) (0, 1) rekeyed_board = Inr b' \<and>
      map_of (pieces b') (0, 1) = Some pc' \<and> unat (movenum pc') = 1)"
proof -
  let ?b' = "corner_board
       \<lparr>pieces := [((0, 1), \<lparr>pos = (0, 1), suit = ''white'', traj = {(0, 2)}, capt = {(1, 2)},
                     movenum = 1, cls = ''Rook''\<rparr>)],
        captures := [((0, 1), (0, 1))]\<rparr>"
  have m: "Piece_move step_rules (0, 1) (0, 1) rekeyed_board = Inr ?b'"
    by (simp add: eval_defs corner_defs rekeyed_board_def)
  have p: "map_of (pieces rekeyed_board) (0, 1) = Some (Piece_ctor (0, 0) ''white'' ''Rook'')"
    by (simp add: rekeyed_board_def)
  from Piece_move_increments_movenum [OF m p, of "(0, 0)" "''white''" "''Rook''"]
  obtain pc' where "map_of (pieces ?b') (0, 1) = Some pc'" and "unat (movenum pc') = 1"
    by blast
  with m show ?thesis by blast
qed

subsection \<open>The steps of \<open>makeTrajectory\<close>\<close>

lemma upd_piece_twice:
  "upd_piece this f (upd_piece this g b) = upd_piece this (\<lambda>q. f (g q)) b"
  by (simp add: upd_piece_def comp_def case_prod_beta)

lemma find_pos_upd_piece:
  assumes "\<And>q. pos (f q) = pos q"
  shows "find_pos this (upd_piece k f b) = find_pos this b"
proof -
  have n: "(case map_of (pieces (upd_piece k f b)) x of None \<Rightarrow> None | Some _ \<Rightarrow> Some y) =
           (case map_of (pieces b) x of None \<Rightarrow> None | Some _ \<Rightarrow> Some y)" for x y :: Position_t
    by (cases "map_of (pieces b) x") (auto simp: map_of_upd_piece)
  show ?thesis
  proof (cases "map_of (pieces b) this")
    case None
    then show ?thesis by (auto simp: find_pos_def map_of_upd_piece)
  next
    case (Some pc)
    then show ?thesis
      unfolding find_pos_def
      by (cases "this = k") (auto simp: map_of_upd_piece assms n split: option.splits)
  qed
qed

text \<open>
  C4, as the code has it. \<open>makeTrajectory\<close> empties the trajectory and the capturing set
  of the piece, calls \<open>addCapturable\<close> with the piece's own square, and only then runs
  \<open>calcTrajectory\<close>: the hook is called on, and its calls act on, the board in which both
  sets are empty and the capture relation has the own-square entry. \<open>addCapturable\<close>
  checks the bounds, so the entry is made only for a piece that stands on the board; it
  then needs a node of the position table under the piece's position.
\<close>

theorem makeTrajectory_steps:
  fixes b :: "'i Board"
  defines "before_hook \<equiv> \<lambda>this pc.
     (upd_piece this (\<lambda>q. q\<lparr>traj := {}, capt := {}\<rparr>) b)
       \<lparr>captures := (if valid b (pos pc) then mm_insert (pos pc, pos pc) (captures b)
                     else captures b)\<rparr>"
  assumes "map_of (pieces b) this = Some pc"
    and "valid b (pos pc) \<longrightarrow> map_of (pieces b) (pos pc) \<noteq> None"
  shows "makeTrajectory R this b =
           run R this (calcTrajectory R (cls pc) (before_hook this pc) this) (before_hook this pc) \<and>
         map_of (pieces (before_hook this pc)) this = Some (pc\<lparr>traj := {}, capt := {}\<rparr>) \<and>
         (valid b (pos pc) \<longrightarrow> (pos pc, pos pc) \<in> set (captures (before_hook this pc))) \<and>
         (\<not> valid b (pos pc) \<longrightarrow> captures (before_hook this pc) = captures b)"
proof -
  let ?b2 = "upd_piece this (\<lambda>q. q\<lparr>capt := {}\<rparr>) (upd_piece this (\<lambda>q. q\<lparr>traj := {}\<rparr>) b)"
  have b2: "?b2 = upd_piece this (\<lambda>q. q\<lparr>traj := {}, capt := {}\<rparr>) b"
    by (simp add: upd_piece_twice)
  have f: "find_pos this ?b2 = find_pos this b"
    by (simp add: find_pos_upd_piece)
  have a: "addCapturable this (pos pc) ?b2 = Inr (before_hook this pc)"
  proof (cases "valid b (pos pc)")
    case True
    with assms(3) obtain q where "map_of (pieces b) (pos pc) = Some q" by auto
    with assms(2) have "find_pos this b = Some (pos pc)" by (simp add: find_pos_def)
    with f True show ?thesis
      unfolding before_hook_def b2 [symmetric] by (simp add: addCapturable_def)
  next
    case False
    then show ?thesis
      unfolding before_hook_def b2 [symmetric] by (simp add: addCapturable_def)
  qed
  have 1: "makeTrajectory R this b =
           run R this (calcTrajectory R (cls pc) (before_hook this pc) this) (before_hook this pc)"
    using assms(2) a by (simp add: makeTrajectory_def Let_def)
  have 2: "map_of (pieces (before_hook this pc)) this = Some (pc\<lparr>traj := {}, capt := {}\<rparr>)"
    using assms(2) by (simp add: before_hook_def map_of_upd_piece)
  have 3: "valid b (pos pc) \<longrightarrow> (pos pc, pos pc) \<in> set (captures (before_hook this pc))"
    by (simp add: before_hook_def)
  have 4: "\<not> valid b (pos pc) \<longrightarrow> captures (before_hook this pc) = captures b"
    by (simp add: before_hook_def)
  from 1 2 3 4 show ?thesis by blast
qed

theorem makeTrajectory_steps_witness:
  "makeTrajectory step_rules (0, 0) corner_board =
     Inr (corner_board
       \<lparr>pieces := [((0, 0), \<lparr>pos = (0, 0), suit = ''white'', traj = {(0, 1)}, capt = {(1, 1)},
                     movenum = 0, cls = ''Rook''\<rparr>)],
        captures := [((0, 0), (0, 0))]\<rparr>)"
proof -
  have v: "valid corner_board (0, 0)"
    by (simp add: valid_def isWithin_def Origin_def corner_defs)
  have p: "pos (Piece_ctor (0, 0) ''white'' ''Rook'') = (0, 0)"
    by (simp add: Piece_ctor_def)
  have h: "valid corner_board (pos (Piece_ctor (0, 0) ''white'' ''Rook'')) \<longrightarrow>
      map_of (pieces corner_board) (pos (Piece_ctor (0, 0) ''white'' ''Rook'')) \<noteq> None"
    by (simp add: p corner_piece)
  from makeTrajectory_steps [OF corner_piece h, of step_rules] v show ?thesis
    by (simp add: p eval_defs corner_defs)
qed

text \<open>
  The claim as stated fails for a piece that stands outside the board: its own square is
  not registered, the capture relation stays empty.
\<close>

theorem own_square_not_registered_counterexample:
  "map_of (pieces stray_board) (9, 9) =
     Some \<lparr>pos = (9, 9), suit = ''white'', traj = {}, capt = {}, movenum = 0, cls = ''Rook''\<rparr> \<and>
   captures stray_board = [] \<and>
   boardWidth (config stray_board) = 8 \<and> boardHeight (config stray_board) = 8 \<and>
   makeTrajectory step_rules (9, 9) stray_board = Inr stray_board"
  by (simp add: eval_defs corner_defs stray_board_def)

subsection \<open>Two runs of the same calls\<close>

lemma find_pos_cong: "pieces c = pieces b \<Longrightarrow> find_pos this c = find_pos this b"
  unfolding find_pos_def by (erule ssubst) (rule refl)

lemma valid_cong: "config c = config b \<Longrightarrow> valid c = valid b"
  by (simp add: valid_def fun_eq_iff)

lemma pieces_upd_piece_cong:
  "pieces c = pieces b \<Longrightarrow> pieces (upd_piece this f c) = pieces (upd_piece this f b)"
  by (simp add: upd_piece_def)

lemma exec_same_pieces:
  assumes "exec R this a b = Inr b'" and "config c = config b" and "pieces c = pieces b"
  shows "\<exists>c'. exec R this a c = Inr c' \<and> config c' = config b' \<and> pieces c' = pieces b'"
proof (cases a)
  case (AddTrajectory tile)
  with assms show ?thesis
    by (auto simp: addTrajectory_def valid_cong [OF assms(2)] intro: pieces_upd_piece_cong)
next
  case (RemoveTrajectory tile)
  with assms show ?thesis
    by (auto simp: removeTrajectory_def intro: pieces_upd_piece_cong)
next
  case (AddCapturing tile)
  with assms show ?thesis
    by (auto simp: addCapturing_def valid_cong [OF assms(2)] intro: pieces_upd_piece_cong)
next
  case (RemoveCapturing tile)
  with assms show ?thesis
    by (auto simp: removeCapturing_def intro: pieces_upd_piece_cong)
next
  case (AddCapturable tile)
  with assms show ?thesis
    by (auto simp: addCapturable_def valid_cong [OF assms(2)] find_pos_cong [OF assms(3)]
        split: if_splits option.splits)
next
  case (RemoveCapturable tile)
  with assms show ?thesis
    by (auto simp: removeCapturable_def Let_def find_pos_cong [OF assms(3)] split: option.splits)
next
  case (GetInteraction t)
  with assms show ?thesis
    by (auto simp: getInteraction_frame)
qed

lemma run_same_pieces:
  assumes "run R this as b = Inr b'" and "config c = config b" and "pieces c = pieces b"
  shows "\<exists>c'. run R this as c = Inr c' \<and> config c' = config b' \<and> pieces c' = pieces b'"
  using assms
proof (induction as arbitrary: b c)
  case Nil
  then show ?case by simp
next
  case (Cons a as)
  from Cons.prems(1) obtain b1 where a: "exec R this a b = Inr b1"
    and r: "run R this as b1 = Inr b'"
    by (auto split: sum.splits)
  from exec_same_pieces [OF a Cons.prems(2,3)] obtain c1 where c1: "exec R this a c = Inr c1"
    and s: "config c1 = config b1" "pieces c1 = pieces b1" by blast
  from Cons.IH [OF r s] c1 show ?case by simp
qed

text \<open>The calls of a hook change nothing of the pieces but the two sets of its own piece.\<close>

lemma exec_cleared:
  assumes "exec R this a b = Inr b'"
  shows "pieces (upd_piece this (\<lambda>q. q\<lparr>traj := {}, capt := {}\<rparr>) b') =
         pieces (upd_piece this (\<lambda>q. q\<lparr>traj := {}, capt := {}\<rparr>) b)"
proof (cases a)
  case (AddCapturable tile)
  with assms have "pieces b' = pieces b" by (auto dest: addCapturable_frame(2))
  then show ?thesis by (rule pieces_upd_piece_cong)
next
  case (RemoveCapturable tile)
  with assms have "pieces b' = pieces b" by (auto dest: removeCapturable_frame(2))
  then show ?thesis by (rule pieces_upd_piece_cong)
next
  case (GetInteraction t)
  with assms have "pieces b' = pieces b" by (auto simp: getInteraction_frame)
  then show ?thesis by (rule pieces_upd_piece_cong)
qed (use assms in \<open>auto simp: addTrajectory_def removeTrajectory_def addCapturing_def
      removeCapturing_def upd_piece_twice\<close>)

lemma run_cleared:
  "run R this as b = Inr b' \<Longrightarrow>
     pieces (upd_piece this (\<lambda>q. q\<lparr>traj := {}, capt := {}\<rparr>) b') =
     pieces (upd_piece this (\<lambda>q. q\<lparr>traj := {}, capt := {}\<rparr>) b)"
proof (induction as arbitrary: b)
  case Nil
  then show ?case by simp
next
  case (Cons a as)
  from Cons.prems obtain b1 where a: "exec R this a b = Inr b1"
    and r: "run R this as b1 = Inr b'"
    by (auto split: sum.splits)
  from Cons.IH [OF r] exec_cleared [OF a] show ?case by simp
qed

lemma occupancy_cong: "pieces c = pieces b \<Longrightarrow> occupancy c = occupancy b"
  by (simp add: occupancy_def)

lemma exec_captures_rel:
  assumes "exec R this a b = Inr b'" and "exec R this a c = Inr c'"
    and "config c = config b" and "pieces c = pieces b"
    and "\<forall>tile. a \<noteq> RemoveCapturable tile"
  shows "mset (captures b') + mset (captures c) = mset (captures c') + mset (captures b)"
proof (cases a)
  case (AddCapturable tile)
  with assms(1,2) show ?thesis
    by (auto simp: addCapturable_def valid_cong [OF assms(3)] find_pos_cong [OF assms(4)]
        split: if_splits option.splits)
next
  case (RemoveCapturable tile)
  with assms(5) show ?thesis by simp
next
  case (GetInteraction t)
  with assms(1,2) show ?thesis by (auto simp: getInteraction_frame)
qed (use assms(1,2) in \<open>auto simp: addTrajectory_def removeTrajectory_def addCapturing_def
      removeCapturing_def split: if_splits\<close>)

lemma run_captures_rel:
  assumes "run R this as b = Inr b'" and "run R this as c = Inr c'"
    and "config c = config b" and "pieces c = pieces b"
    and "\<forall>tile. RemoveCapturable tile \<notin> set as"
  shows "mset (captures b') + mset (captures c) = mset (captures c') + mset (captures b)"
  using assms
proof (induction as arbitrary: b c)
  case Nil
  then show ?case by simp
next
  case (Cons a as)
  from Cons.prems(1) obtain b1 where ab: "exec R this a b = Inr b1"
    and rb: "run R this as b1 = Inr b'"
    by (auto split: sum.splits)
  from Cons.prems(2) obtain c1 where ac: "exec R this a c = Inr c1"
    and rc: "run R this as c1 = Inr c'"
    by (auto split: sum.splits)
  from exec_same_pieces [OF ab Cons.prems(3,4)] ac
  have s: "config c1 = config b1" "pieces c1 = pieces b1" by auto
  from Cons.prems(5) have na: "\<forall>tile. a \<noteq> RemoveCapturable tile"
    and nas: "\<forall>tile. RemoveCapturable tile \<notin> set as" by auto
  from exec_captures_rel [OF ab ac Cons.prems(3,4) na]
  have 1: "mset (captures b1) + mset (captures c) = mset (captures c1) + mset (captures b)" .
  from Cons.IH [OF rb rc s nas]
  have 2: "mset (captures b') + mset (captures c1) = mset (captures c') + mset (captures b1)" .
  have "mset (captures b') + mset (captures c) + mset (captures c1) =
        mset (captures b') + mset (captures c1) + mset (captures c)"
    by (simp add: ac_simps)
  also have "\<dots> = mset (captures c') + (mset (captures b1) + mset (captures c))"
    by (simp add: 2 ac_simps)
  also have "\<dots> = mset (captures c') + mset (captures b) + mset (captures c1)"
    by (simp add: 1 ac_simps)
  finally show ?case by simp
qed

lemma exec_captures_mono:
  assumes "exec R this a b = Inr b'" and "\<forall>tile. a \<noteq> RemoveCapturable tile"
  shows "mset (captures b) \<subseteq># mset (captures b')"
proof (cases a)
  case (AddCapturable tile)
  with assms(1) show ?thesis
    by (auto simp: addCapturable_def split: if_splits option.splits)
next
  case (RemoveCapturable tile)
  with assms(2) show ?thesis by simp
next
  case (GetInteraction t)
  with assms(1) show ?thesis by (auto simp: getInteraction_frame)
qed (use assms(1) in \<open>auto simp: addTrajectory_def removeTrajectory_def addCapturing_def
      removeCapturing_def split: if_splits\<close>)

lemma run_captures_mono:
  assumes "run R this as b = Inr b'" and "\<forall>tile. RemoveCapturable tile \<notin> set as"
  shows "mset (captures b) \<subseteq># mset (captures b')"
  using assms
proof (induction as arbitrary: b)
  case Nil
  then show ?case by simp
next
  case (Cons a as)
  from Cons.prems(1) obtain b1 where ab: "exec R this a b = Inr b1"
    and rb: "run R this as b1 = Inr b'"
    by (auto split: sum.splits)
  from Cons.prems(2) have na: "\<forall>tile. a \<noteq> RemoveCapturable tile"
    and nas: "\<forall>tile. RemoveCapturable tile \<notin> set as" by auto
  from exec_captures_mono [OF ab na] Cons.IH [OF rb nas] show ?case
    by (rule subset_mset.order_trans)
qed

lemma addCapturable_captures:
  assumes "addCapturable this tile b = Inr b'"
  shows "\<exists>it. captures b' = (if valid b tile then mm_insert (it, tile) (captures b) else captures b) \<and>
           (valid b tile \<longrightarrow> find_pos this b = Some it)"
  using assms by (auto simp: addCapturable_def split: if_splits option.splits)

text \<open>
  C3, as the code has it. Let a rule hook make the same calls whenever the configuration
  and the occupancy of the board are the same. Then a second \<open>makeTrajectory\<close> right after
  the first returns as well and leaves the position table, with every piece's
  trajectory and capturing set, as the first run left it. The capture relation is not
  reset by \<open>makeTrajectory\<close>: if the hook removes no capturable entry, the second run puts
  in once more what the first run put in, so the relation holds the same pairs but more
  entries, at least one more when the piece stands on the board.
\<close>

theorem makeTrajectory_twice:
  assumes first: "makeTrajectory R this b = Inr b1" and stable: "reads_occupancy_only R"
  shows "\<exists>b2. makeTrajectory R this b1 = Inr b2 \<and> pieces b2 = pieces b1 \<and> config b2 = config b1 \<and>
           (\<forall>pc. map_of (pieces b) this = Some pc \<and>
                 (\<forall>tile. RemoveCapturable tile \<notin> set (calcTrajectory R (cls pc) b this)) \<longrightarrow>
              mset (captures b2) + mset (captures b) = mset (captures b1) + mset (captures b1) \<and>
              set (captures b2) = set (captures b1) \<and>
              (valid b (pos pc) \<longrightarrow> length (captures b1) < length (captures b2)))"
proof -
  let ?clear = "\<lambda>q :: Piece. q\<lparr>traj := {}, capt := {}\<rparr>"
  let ?c = "upd_piece this (\<lambda>q. q\<lparr>capt := {}\<rparr>) (upd_piece this (\<lambda>q. q\<lparr>traj := {}\<rparr>) b)"
  let ?c1 = "upd_piece this (\<lambda>q. q\<lparr>capt := {}\<rparr>) (upd_piece this (\<lambda>q. q\<lparr>traj := {}\<rparr>) b1)"
  have c: "?c = upd_piece this ?clear b" and c1: "?c1 = upd_piece this ?clear b1"
    by (simp_all add: upd_piece_twice)
  from first obtain pc b3 where pcb: "map_of (pieces b) this = Some pc"
    and a1: "addCapturable this (pos pc) ?c = Inr b3"
    and r1: "run R this (calcTrajectory R (cls pc) b3 this) b3 = Inr b1"
    by (rule makeTrajectory_unfold)
  let ?as = "calcTrajectory R (cls pc) b this"
  have f3: "config b3 = config b" "pieces b3 = pieces (upd_piece this ?clear b)"
    using addCapturable_frame(1,2) [OF a1] by (simp_all add: c)
  have "occupancy b3 = occupancy (upd_piece this ?clear b)"
    using f3(2) by (rule occupancy_cong)
  then have o3: "occupancy b3 = occupancy b"
    by (simp add: occupancy_upd_piece)
  from stable f3(1) o3 have as3: "calcTrajectory R (cls pc) b3 this = ?as"
    unfolding reads_occupancy_only_def by blast
  from run_frame [OF r1] have f1: "occupancy b1 = occupancy b3" "config b1 = config b3" by simp_all
  from occupancy_map_of [OF f1(1) [unfolded o3] pcb] obtain pc1
    where pc1: "map_of (pieces b1) this = Some pc1" and e1: "pos pc1 = pos pc" "cls pc1 = cls pc"
    by blast
  have "pieces (upd_piece this ?clear b3) = pieces (upd_piece this ?clear (upd_piece this ?clear b))"
    using f3(2) by (rule pieces_upd_piece_cong)
  also have "\<dots> = pieces b3"
    by (simp add: upd_piece_twice f3(2))
  finally have cl3: "pieces (upd_piece this ?clear b3) = pieces b3" .
  have pc1s: "pieces ?c1 = pieces b3"
    using run_cleared [OF r1] by (simp add: c1 cl3)
  have cf1: "config ?c1 = config b3"
    using f1(2) by simp
  have v1: "valid b1 = valid b"
    using f1(2) f3(1) by (simp add: valid_def fun_eq_iff)
  have fp: "find_pos this ?c1 = find_pos this ?c"
  proof -
    have "find_pos this ?c1 = find_pos this b3" using pc1s by (rule find_pos_cong)
    also have "\<dots> = find_pos this ?c"
      using addCapturable_frame(2) [OF a1] by (rule find_pos_cong)
    finally show ?thesis .
  qed
  from addCapturable_captures [OF a1] obtain it
    where k3raw: "captures b3 =
        (if valid ?c (pos pc) then mm_insert (it, pos pc) (captures ?c) else captures ?c)"
      and it: "valid ?c (pos pc) \<longrightarrow> find_pos this ?c = Some it"
    by blast
  have k3: "captures b3 =
      (if valid ?c (pos pc) then mm_insert (it, pos pc) (captures b) else captures b)"
    using k3raw by simp
  define b3' where "b3' =
    (if valid ?c (pos pc) then ?c1\<lparr>captures := mm_insert (it, pos pc) (captures b1)\<rparr> else ?c1)"
  have a2: "addCapturable this (pos pc) ?c1 = Inr b3'"
    using it by (simp add: addCapturable_def v1 fp b3'_def)
  have f3': "config b3' = config b3" "pieces b3' = pieces b3"
    using cf1 pc1s by (simp_all add: b3'_def)
  have k3': "captures b3' =
      (if valid ?c (pos pc) then mm_insert (it, pos pc) (captures b1) else captures b1)"
    by (simp add: b3'_def)
  have "occupancy b3' = occupancy b3"
    using f3'(2) by (rule occupancy_cong)
  then have "occupancy b3' = occupancy b"
    using o3 by simp
  moreover have "config b3' = config b"
    using f3'(1) f3(1) by simp
  ultimately have as3': "calcTrajectory R (cls pc) b3' this = ?as"
    using stable unfolding reads_occupancy_only_def by blast
  from run_same_pieces [OF r1 [unfolded as3] f3'] obtain b2
    where r2: "run R this ?as b3' = Inr b2"
      and f2: "config b2 = config b1" "pieces b2 = pieces b1"
    by blast
  have m2: "makeTrajectory R this b1 = Inr b2"
    using pc1 a2 r2 by (simp add: makeTrajectory_def Let_def e1 as3')
  have caps: "mset (captures b2) + mset (captures b) = mset (captures b1) + mset (captures b1) \<and>
              set (captures b2) = set (captures b1) \<and>
              (valid b (pos pc) \<longrightarrow> length (captures b1) < length (captures b2))"
    if nr: "\<forall>tile. RemoveCapturable tile \<notin> set ?as"
  proof -
    from run_captures_rel [OF r1 [unfolded as3] r2 f3' nr]
    have "mset (captures b1) + mset (captures b3') = mset (captures b2) + mset (captures b3)" .
    then have rel: "mset (captures b2) + mset (captures b) = mset (captures b1) + mset (captures b1)"
      by (cases "valid ?c (pos pc)") (simp_all add: k3 k3')
    have "mset (captures b) \<subseteq># mset (captures b3)"
      by (simp add: k3)
    with run_captures_mono [OF r1 [unfolded as3] nr]
    have le: "mset (captures b) \<subseteq># mset (captures b1)"
      by (rule subset_mset.order_trans [rotated])
    have "mset (captures b1) \<subseteq># mset (captures b3')"
      by (simp add: k3')
    with run_captures_mono [OF r2 nr]
    have le2: "mset (captures b1) \<subseteq># mset (captures b2)"
      by (rule subset_mset.order_trans [rotated])
    from rel have "set_mset (mset (captures b2) + mset (captures b)) =
        set_mset (mset (captures b1) + mset (captures b1))"
      by simp
    then have "set (captures b2) \<union> set (captures b) = set (captures b1)" by simp
    moreover from le2 have "set (captures b1) \<subseteq> set (captures b2)"
      using set_mset_mono by fastforce
    ultimately have sets: "set (captures b2) = set (captures b1)" by blast
    from rel have "size (mset (captures b2) + mset (captures b)) =
        size (mset (captures b1) + mset (captures b1))"
      by simp
    then have len: "length (captures b2) + length (captures b) = 2 * length (captures b1)"
      by simp
    have grow: "length (captures b1) < length (captures b2)" if "valid b (pos pc)"
    proof -
      from that have "valid ?c (pos pc)" by (simp add: valid_def)
      then have "length (captures b3) = Suc (length (captures b))" by (simp add: k3)
      moreover from run_captures_mono [OF r1 [unfolded as3] nr]
      have "size (mset (captures b3)) \<le> size (mset (captures b1))"
        by (rule size_mset_mono)
      ultimately have "length (captures b) < length (captures b1)" by simp
      with len show ?thesis by linarith
    qed
    from rel sets grow show ?thesis by blast
  qed
  show ?thesis
  proof (intro exI conjI allI impI)
    show "makeTrajectory R this b1 = Inr b2" by (rule m2)
    show "pieces b2 = pieces b1" by (rule f2(2))
    show "config b2 = config b1" by (rule f2(1))
  next
    fix q
    assume h: "map_of (pieces b) this = Some q \<and>
               (\<forall>tile. RemoveCapturable tile \<notin> set (calcTrajectory R (cls q) b this))"
    with pcb have q: "q = pc" by simp
    with h caps
    show "mset (captures b2) + mset (captures b) = mset (captures b1) + mset (captures b1)"
      and "set (captures b2) = set (captures b1)"
      by simp_all
    assume "valid b (pos q)"
    with q h caps show "length (captures b1) < length (captures b2)" by simp
  qed
qed

lemma step_rules_stable: "reads_occupancy_only step_rules"
  by (simp add: reads_occupancy_only_def step_rules_def)

lemma makeTrajectory_corner_once:
  "makeTrajectory step_rules (0, 0) corner_board = Inr recomputed_once"
  by (simp add: eval_defs corner_defs recomputed_once_def)

lemma makeTrajectory_corner_twice:
  "makeTrajectory step_rules (0, 0) recomputed_once = Inr recomputed_twice"
  by (simp add: eval_defs corner_defs recomputed_once_def recomputed_twice_def)

theorem makeTrajectory_twice_witness:
  "reads_occupancy_only step_rules \<and>
   makeTrajectory step_rules (0, 0) corner_board = Inr recomputed_once \<and>
   makeTrajectory step_rules (0, 0) recomputed_once = Inr recomputed_twice \<and>
   pieces recomputed_twice = pieces recomputed_once \<and>
   set (captures recomputed_twice) = set (captures recomputed_once) \<and>
   length (captures recomputed_once) < length (captures recomputed_twice)"
proof -
  have n: "\<forall>tile. RemoveCapturable tile \<notin>
      set (calcTrajectory step_rules (cls (Piece_ctor (0, 0) ''white'' ''Rook'')) corner_board (0, 0))"
    by (simp add: step_rules_def)
  have v: "valid corner_board (pos (Piece_ctor (0, 0) ''white'' ''Rook''))"
    by (simp add: valid_def isWithin_def Origin_def corner_defs Piece_ctor_def)
  from makeTrajectory_twice [OF makeTrajectory_corner_once step_rules_stable]
    makeTrajectory_corner_twice corner_piece n v
  have "pieces recomputed_twice = pieces recomputed_once \<and>
     set (captures recomputed_twice) = set (captures recomputed_once) \<and>
     length (captures recomputed_once) < length (captures recomputed_twice)"
    by auto
  with step_rules_stable makeTrajectory_corner_once makeTrajectory_corner_twice
  show ?thesis by blast
qed

text \<open>
  The claim as stated fails for the capture relation: the second run leaves two entries
  for the own square where the first run left one.
\<close>

theorem makeTrajectory_not_idempotent_counterexample:
  "makeTrajectory step_rules (0, 0) corner_board = Inr recomputed_once \<and>
   makeTrajectory step_rules (0, 0) recomputed_once = Inr recomputed_twice \<and>
   captures recomputed_once = [((0, 0), (0, 0))] \<and>
   captures recomputed_twice = [((0, 0), (0, 0)), ((0, 0), (0, 0))] \<and>
   recomputed_twice \<noteq> recomputed_once"
proof -
  have "captures recomputed_twice \<noteq> captures recomputed_once"
    by (simp add: recomputed_once_def recomputed_twice_def)
  then have "recomputed_twice \<noteq> recomputed_once" by auto
  then show ?thesis
    by (simp add: makeTrajectory_corner_once makeTrajectory_corner_twice)
       (simp add: recomputed_once_def recomputed_twice_def)
qed

subsection \<open>Placing the pieces of a layout\<close>

lemma map_of_map_assign: "map_of (map_assign k v xs) = (map_of xs)(k \<mapsto> v)"
  by (induction xs) (auto simp: fun_eq_iff)

lemma set_map_assign: "set (map_assign k v xs) \<subseteq> insert (k, v) (set xs)"
  by (induction xs) auto

lemma keys_map_assign: "fst ` set (map_assign k v xs) = insert k (fst ` set xs)"
  by (induction xs) auto

lemma length_map_assign:
  "k \<notin> fst ` set xs \<Longrightarrow> length (map_assign k v xs) = Suc (length xs)"
  by (induction xs) auto

lemma requestInteractions_frame:
  "config (requestInteractions R ts b) = config b \<and>
   pieces (requestInteractions R ts b) = pieces b \<and>
   captures (requestInteractions R ts b) = captures b \<and>
   factory (requestInteractions R ts b) = factory b"
  by (induction ts arbitrary: b) (simp_all add: getInteraction_frame)

lemma place_missing:
  assumes "\<exists>slot \<in> set slots. map_of (factory b) (fst (snd slot)) = None"
  shows "place R slots b = Inl OutOfRange"
  using assms
proof (induction slots arbitrary: b)
  case Nil
  then show ?case by simp
next
  case (Cons slot slots)
  show ?case
  proof (cases "map_of (factory b) (fst (snd slot))")
    case None
    then show ?thesis by simp
  next
    case (Some c)
    let ?b1 = "requestInteractions R (ctorInteractions R c) b"
    let ?b2 = "?b1\<lparr>pieces := map_assign (fst slot) (Piece_ctor (fst slot) (snd (snd slot)) c) (pieces ?b1)\<rparr>"
    have f: "factory ?b2 = factory b" by (simp add: requestInteractions_frame)
    from Cons.prems Some have "\<exists>s \<in> set slots. map_of (factory b) (fst (snd s)) = None" by auto
    then have "\<exists>s \<in> set slots. map_of (factory ?b2) (fst (snd s)) = None" by (simp only: f)
    then have "place R slots ?b2 = Inl OutOfRange" by (rule Cons.IH)
    with Some show ?thesis by (simp add: Let_def)
  qed
qed

lemma strict_sorted_map_assign:
  "sorted_wrt (<) (map fst xs) \<Longrightarrow> sorted_wrt (<) (map fst (map_assign k v xs))"
proof (induction xs)
  case Nil
  then show ?case by simp
next
  case (Cons e es)
  show ?case
  proof (cases "k < fst e")
    case True
    with Cons.prems show ?thesis by (auto intro: less_trans)
  next
    case False
    show ?thesis
    proof (cases "k = fst e")
      case True
      with Cons.prems show ?thesis by simp
    next
      case ne: False
      with False have lt: "fst e < k" by simp
      from Cons.prems have "sorted_wrt (<) (map fst es)" and all: "\<forall>y \<in> set es. fst e < fst y"
        by simp_all
      from Cons.IH [OF this(1)] have s: "sorted_wrt (<) (map fst (map_assign k v es))" .
      have "\<forall>y \<in> set (map_assign k v es). fst e < fst y"
      proof
        fix y
        assume "y \<in> set (map_assign k v es)"
        then have "fst y \<in> fst ` set (map_assign k v es)" by (rule imageI)
        then have "fst y = k \<or> fst y \<in> fst ` set es" by (simp add: keys_map_assign)
        with lt all show "fst e < fst y" by auto
      qed
      with s False ne show ?thesis by simp
    qed
  qed
qed

lemma coherent_map_assign:
  assumes "coherent b" and "pos pc = k" and "pieces b' = map_assign k pc (pieces b)"
  shows "coherent b'"
  using assms set_map_assign [of k pc "pieces b"] unfolding coherent_def by auto

lemma place_total:
  assumes "\<forall>slot \<in> set slots. map_of (factory b) (fst (snd slot)) \<noteq> None"
  shows "\<exists>b'. place R slots b = Inr b'"
  using assms
proof (induction slots arbitrary: b)
  case Nil
  then show ?case by simp
next
  case (Cons slot slots)
  from Cons.prems obtain c where c: "map_of (factory b) (fst (snd slot)) = Some c" by auto
  let ?b1 = "requestInteractions R (ctorInteractions R c) b"
  let ?b2 = "?b1\<lparr>pieces := map_assign (fst slot) (Piece_ctor (fst slot) (snd (snd slot)) c) (pieces ?b1)\<rparr>"
  have "factory ?b2 = factory b" by (simp add: requestInteractions_frame)
  with Cons.prems have "\<forall>s \<in> set slots. map_of (factory ?b2) (fst (snd s)) \<noteq> None" by simp
  from Cons.IH [OF this] c show ?case by (simp add: Let_def)
qed

lemma place_frame:
  assumes "place R slots b = Inr b'"
  shows "config b' = config b \<and> factory b' = factory b \<and> captures b' = captures b \<and>
         (coherent b \<longrightarrow> coherent b') \<and>
         (sorted_wrt (<) (map fst (pieces b)) \<longrightarrow> sorted_wrt (<) (map fst (pieces b'))) \<and>
         fst ` set (pieces b') = fst ` set (pieces b) \<union> fst ` set slots \<and>
         (\<forall>sq. map_of (pieces b') sq =
            (case map_of (rev slots) sq of
               None \<Rightarrow> map_of (pieces b) sq
             | Some ks \<Rightarrow> map_option (Piece_ctor sq (snd ks)) (map_of (factory b) (fst ks)))) \<and>
         (\<forall>slot \<in> set slots. map_of (factory b) (fst (snd slot)) \<noteq> None)"
  using assms
proof (induction slots arbitrary: b)
  case Nil
  then show ?case by simp
next
  case (Cons slot slots)
  from Cons.prems obtain c where c: "map_of (factory b) (fst (snd slot)) = Some c"
    by (cases "map_of (factory b) (fst (snd slot))") simp_all
  let ?pc = "Piece_ctor (fst slot) (snd (snd slot)) c"
  let ?b1 = "requestInteractions R (ctorInteractions R c) b"
  let ?b2 = "?b1\<lparr>pieces := map_assign (fst slot) ?pc (pieces ?b1)\<rparr>"
  have fr: "config ?b2 = config b" "factory ?b2 = factory b" "captures ?b2 = captures b"
    "pieces ?b2 = map_assign (fst slot) ?pc (pieces b)"
    by (simp_all add: requestInteractions_frame)
  from Cons.prems c have pl: "place R slots ?b2 = Inr b'" by (simp add: Let_def)
  note ih = Cons.IH [OF pl]
  have 1: "config b' = config b" "factory b' = factory b" "captures b' = captures b"
    using ih by (simp_all add: fr)
  have 2: "coherent b \<longrightarrow> coherent b'"
  proof
    assume "coherent b"
    then have "coherent ?b2"
    proof (rule coherent_map_assign [where k = "fst slot" and pc = ?pc])
      show "pos ?pc = fst slot" by (simp add: Piece_ctor_def)
      show "pieces ?b2 = map_assign (fst slot) ?pc (pieces b)" by (rule fr(4))
    qed
    with ih show "coherent b'" by blast
  qed
  have 3: "sorted_wrt (<) (map fst (pieces b)) \<longrightarrow> sorted_wrt (<) (map fst (pieces b'))"
  proof
    assume "sorted_wrt (<) (map fst (pieces b))"
    then have "sorted_wrt (<) (map fst (pieces ?b2))"
      unfolding fr by (rule strict_sorted_map_assign)
    with ih show "sorted_wrt (<) (map fst (pieces b'))" by blast
  qed
  have 4: "fst ` set (pieces b') = fst ` set (pieces b) \<union> fst ` set (slot # slots)"
  proof -
    from ih have "fst ` set (pieces b') = fst ` set (pieces ?b2) \<union> fst ` set slots" by blast
    then show ?thesis unfolding fr keys_map_assign by auto
  qed
  have 5: "\<forall>sq. map_of (pieces b') sq =
            (case map_of (rev (slot # slots)) sq of
               None \<Rightarrow> map_of (pieces b) sq
             | Some ks \<Rightarrow> map_option (Piece_ctor sq (snd ks)) (map_of (factory b) (fst ks)))"
  proof
    fix sq
    from ih have m: "map_of (pieces b') sq =
            (case map_of (rev slots) sq of
               None \<Rightarrow> map_of (pieces ?b2) sq
             | Some ks \<Rightarrow> map_option (Piece_ctor sq (snd ks)) (map_of (factory ?b2) (fst ks)))"
      by blast
    show "map_of (pieces b') sq =
            (case map_of (rev (slot # slots)) sq of
               None \<Rightarrow> map_of (pieces b) sq
             | Some ks \<Rightarrow> map_option (Piece_ctor sq (snd ks)) (map_of (factory b) (fst ks)))"
    proof (cases "map_of (rev slots) sq")
      case (Some ks)
      with m show ?thesis by (simp add: fr map_add_def)
    next
      case None
      with m have "map_of (pieces b') sq = map_of (pieces ?b2) sq" by simp
      also have "\<dots> = (if sq = fst slot then Some ?pc else map_of (pieces b) sq)"
        by (simp add: fr map_of_map_assign)
      finally show ?thesis
        using None c by (cases slot) (auto simp: map_add_def)
    qed
  qed
  have 6: "\<forall>s \<in> set (slot # slots). map_of (factory b) (fst (snd s)) \<noteq> None"
    using ih c by (simp add: fr)
  from 1 2 3 4 5 6 show ?case by blast
qed



text \<open>
  C5, as the code has it. The constructor goes through the layout in order and stores
  each new piece under its square, so a later entry for a square replaces the piece of an
  earlier entry for the same square. If every piece kind of the layout is a key of the
  factory, the constructor returns a board: its position table has exactly one piece for
  every square that the layout names, of the side and the factory's class of the last
  entry for that square, which is one piece per layout entry when no square is named
  twice; and the returned board is what one recalculation of all pieces makes of the
  board with the pieces placed. If a kind of the layout is not a key of the factory, the
  constructor ends with the lookup error of \<open>factory.at\<close> and returns no board.
\<close>

theorem Board_ctor_places_layout:
  "((\<forall>slot \<in> set (initialLayout conf). map_of fac (fst (snd slot)) \<noteq> None) \<longrightarrow>
      (\<exists>placed b.
         place R (initialLayout conf)
           \<lparr>config = conf, pieces = [], captures = [], factory = fac, interactions = []\<rparr> =
           Inr placed \<and>
         recalculate R placed = Inr b \<and>
         Board_ctor R conf fac = Inr b \<and>
         config b = conf \<and>
         fst ` set (pieces b) = fst ` set (initialLayout conf) \<and>
         distinct (map fst (pieces b)) \<and>
         length (pieces b) = card (fst ` set (initialLayout conf)) \<and>
         (\<forall>sq kind su. map_of (rev (initialLayout conf)) sq = Some (kind, su) \<longrightarrow>
            (\<exists>c pc. map_of fac kind = Some c \<and>
               map_of (pieces placed) sq = Some (Piece_ctor sq su c) \<and>
               map_of (pieces b) sq = Some pc \<and>
               pos pc = sq \<and> suit pc = su \<and> cls pc = c \<and> movenum pc = 0)) \<and>
         (distinct (map fst (initialLayout conf)) \<longrightarrow>
            length (pieces b) = length (initialLayout conf) \<and>
            (\<forall>slot \<in> set (initialLayout conf). \<exists>c pc.
               map_of fac (fst (snd slot)) = Some c \<and>
               map_of (pieces b) (fst slot) = Some pc \<and>
               pos pc = fst slot \<and> suit pc = snd (snd slot) \<and> cls pc = c \<and> movenum pc = 0)))) \<and>
   ((\<exists>slot \<in> set (initialLayout conf). map_of fac (fst (snd slot)) = None) \<longrightarrow>
      Board_ctor R conf fac = Inl OutOfRange)"
proof (intro conjI impI)
  let ?e = "\<lparr>config = conf, pieces = [], captures = [], factory = fac, interactions = []\<rparr> :: 'a Board"
  let ?L = "initialLayout conf"
  {
    assume "\<exists>slot \<in> set ?L. map_of fac (fst (snd slot)) = None"
    then have "\<exists>slot \<in> set ?L. map_of (factory ?e) (fst (snd slot)) = None" by simp
    then have "place R ?L ?e = Inl OutOfRange" by (rule place_missing)
    then show "Board_ctor R conf fac = Inl OutOfRange" by (simp add: Board_ctor_def)
  }
  assume all: "\<forall>slot \<in> set ?L. map_of fac (fst (snd slot)) \<noteq> None"
  then have "\<forall>slot \<in> set ?L. map_of (factory ?e) (fst (snd slot)) \<noteq> None" by simp
  from place_total [OF this, of R] obtain placed where pl: "place R ?L ?e = Inr placed" by blast
  note fr = place_frame [OF pl]
  have cf: "config placed = conf" using fr by simp
  have co: "coherent placed" using fr by (simp add: coherent_def)
  have so: "sorted_wrt (<) (map fst (pieces placed))" using fr by simp
  have ks: "fst ` set (pieces placed) = fst ` set ?L" using fr by simp
  have at: "map_of (pieces placed) sq =
      (case map_of (rev ?L) sq of
         None \<Rightarrow> None
       | Some ks \<Rightarrow> map_option (Piece_ctor sq (snd ks)) (map_of fac (fst ks)))" for sq
  proof -
    from fr have "map_of (pieces placed) sq =
      (case map_of (rev ?L) sq of
         None \<Rightarrow> map_of (pieces ?e) sq
       | Some ks \<Rightarrow> map_option (Piece_ctor sq (snd ks)) (map_of (factory ?e) (fst ks)))"
      by blast
    then show ?thesis
      by (cases "map_of (rev ?L) sq") simp_all
  qed
  from recalculate_total [OF co] obtain b where re: "recalculate R placed = Inr b" by blast
  from recalculate_frame [OF re] have occ: "occupancy b = occupancy placed"
    and cfb: "config b = config placed" by simp_all
  have keys: "map fst (pieces b) = map fst (pieces placed)" using occ by (rule occupancy_keys)
  have ctor: "Board_ctor R conf fac = Inr b"
    using pl re by (simp add: Board_ctor_def)
  have ksb: "fst ` set (pieces b) = fst ` set ?L"
    using ks keys by (metis set_map)
  have di: "distinct (map fst (pieces b))"
    using so keys by (simp add: strict_sorted_iff)
  from di have "card (set (map fst (pieces b))) = length (map fst (pieces b))"
    by (rule distinct_card)
  then have "card (fst ` set (pieces b)) = length (pieces b)" by simp
  then have len: "length (pieces b) = card (fst ` set ?L)" using ksb by simp
  have last: "\<exists>c pc. map_of fac kind = Some c \<and>
               map_of (pieces placed) sq = Some (Piece_ctor sq su c) \<and>
               map_of (pieces b) sq = Some pc \<and>
               pos pc = sq \<and> suit pc = su \<and> cls pc = c \<and> movenum pc = 0"
    if m: "map_of (rev ?L) sq = Some (kind, su)" for sq kind su
  proof -
    from m have "(sq, kind, su) \<in> set (rev ?L)" by (rule map_of_SomeD)
    then have "(sq, kind, su) \<in> set ?L" by simp
    with all obtain c where c: "map_of fac kind = Some c" by fastforce
    with m have p: "map_of (pieces placed) sq = Some (Piece_ctor sq su c)"
      by (simp add: at)
    from occupancy_map_of [OF occ p] obtain pc where "map_of (pieces b) sq = Some pc"
      "pos pc = sq" "suit pc = su" "cls pc = c" "movenum pc = 0"
      by (auto simp: Piece_ctor_def)
    with c p show ?thesis by blast
  qed
  have dist: "length (pieces b) = length ?L \<and>
            (\<forall>slot \<in> set ?L. \<exists>c pc.
               map_of fac (fst (snd slot)) = Some c \<and>
               map_of (pieces b) (fst slot) = Some pc \<and>
               pos pc = fst slot \<and> suit pc = snd (snd slot) \<and> cls pc = c \<and> movenum pc = 0)"
    if d: "distinct (map fst ?L)"
  proof
    have "card (fst ` set ?L) = card (set (map fst ?L))" by simp
    also have "\<dots> = length (map fst ?L)" using d by (rule distinct_card)
    finally show "length (pieces b) = length ?L" using len by simp
    show "\<forall>slot \<in> set ?L. \<exists>c pc.
               map_of fac (fst (snd slot)) = Some c \<and>
               map_of (pieces b) (fst slot) = Some pc \<and>
               pos pc = fst slot \<and> suit pc = snd (snd slot) \<and> cls pc = c \<and> movenum pc = 0"
    proof
      fix slot
      assume "slot \<in> set ?L"
      then have "(fst slot, fst (snd slot), snd (snd slot)) \<in> set (rev ?L)" by simp
      moreover from d have "distinct (map fst (rev ?L))" by (simp add: rev_map [symmetric])
      ultimately have "map_of (rev ?L) (fst slot) = Some (fst (snd slot), snd (snd slot))"
        by (rule map_of_is_SomeI [rotated])
      from last [OF this]
      show "\<exists>c pc. map_of fac (fst (snd slot)) = Some c \<and>
               map_of (pieces b) (fst slot) = Some pc \<and>
               pos pc = fst slot \<and> suit pc = snd (snd slot) \<and> cls pc = c \<and> movenum pc = 0"
        by blast
    qed
  qed
  show "\<exists>placed b.
         place R ?L ?e = Inr placed \<and>
         recalculate R placed = Inr b \<and>
         Board_ctor R conf fac = Inr b \<and>
         config b = conf \<and>
         fst ` set (pieces b) = fst ` set ?L \<and>
         distinct (map fst (pieces b)) \<and>
         length (pieces b) = card (fst ` set ?L) \<and>
         (\<forall>sq kind su. map_of (rev ?L) sq = Some (kind, su) \<longrightarrow>
            (\<exists>c pc. map_of fac kind = Some c \<and>
               map_of (pieces placed) sq = Some (Piece_ctor sq su c) \<and>
               map_of (pieces b) sq = Some pc \<and>
               pos pc = sq \<and> suit pc = su \<and> cls pc = c \<and> movenum pc = 0)) \<and>
         (distinct (map fst ?L) \<longrightarrow>
            length (pieces b) = length ?L \<and>
            (\<forall>slot \<in> set ?L. \<exists>c pc.
               map_of fac (fst (snd slot)) = Some c \<and>
               map_of (pieces b) (fst slot) = Some pc \<and>
               pos pc = fst slot \<and> suit pc = snd (snd slot) \<and> cls pc = c \<and> movenum pc = 0))"
    apply (rule exI [of _ placed])
    apply (rule exI [of _ b])
  proof (intro conjI allI impI)
    show "place R ?L ?e = Inr placed" by (rule pl)
    show "recalculate R placed = Inr b" by (rule re)
    show "Board_ctor R conf fac = Inr b" by (rule ctor)
    show "config b = conf" using cfb cf by simp
    show "fst ` set (pieces b) = fst ` set ?L" by (rule ksb)
    show "distinct (map fst (pieces b))" by (rule di)
    show "length (pieces b) = card (fst ` set ?L)" by (rule len)
  next
    fix sq kind su
    assume "map_of (rev ?L) sq = Some (kind, su)"
    then show "\<exists>c pc. map_of fac kind = Some c \<and>
               map_of (pieces placed) sq = Some (Piece_ctor sq su c) \<and>
               map_of (pieces b) sq = Some pc \<and>
               pos pc = sq \<and> suit pc = su \<and> cls pc = c \<and> movenum pc = 0"
      by (rule last)
  next
    assume d: "distinct (map fst ?L)"
    from dist [OF d] show "length (pieces b) = length ?L" by blast
    from dist [OF d] show "\<forall>slot \<in> set ?L. \<exists>c pc.
               map_of fac (fst (snd slot)) = Some c \<and>
               map_of (pieces b) (fst slot) = Some pc \<and>
               pos pc = fst slot \<and> suit pc = snd (snd slot) \<and> cls pc = c \<and> movenum pc = 0"
      by blast
  qed
qed

theorem Board_ctor_places_layout_witness:
  "Board_ctor castling_rules duel_config corner_factory =
     Inr \<lparr>config = duel_config,
          pieces =
            [((0, 0), \<lparr>pos = (0, 0), suit = ''white'', traj = {(0, 1)}, capt = {(1, 1)},
                       movenum = 0, cls = ''Rook''\<rparr>),
             ((7, 7), \<lparr>pos = (7, 7), suit = ''black'', traj = {}, capt = {},
                       movenum = 0, cls = ''Rook''\<rparr>)],
          captures = [((0, 0), (0, 0)), ((7, 7), (7, 7))],
          factory = corner_factory,
          interactions = [(''Castling'', 0)]\<rparr> \<and>
   (\<exists>b. Board_ctor castling_rules duel_config corner_factory = Inr b \<and> length (pieces b) = 2) \<and>
   (\<exists>b pc. Board_ctor step_rules twice_config corner_factory = Inr b \<and> length (pieces b) = 1 \<and>
      map_of (pieces b) (0, 0) = Some pc \<and> suit pc = ''black'') \<and>
   Board_ctor castling_rules duel_config [(''pawn'', ''Pawn'')] = Inl OutOfRange"
proof -
  have d: "distinct (map fst (initialLayout duel_config))"
    by (simp add: duel_config_def)
  have dl: "length (initialLayout duel_config) = 2"
    by (simp add: duel_config_def)
  have a: "\<forall>slot \<in> set (initialLayout duel_config). map_of corner_factory (fst (snd slot)) \<noteq> None"
    by (simp add: duel_config_def corner_factory_def)
  have a2: "\<forall>slot \<in> set (initialLayout twice_config). map_of corner_factory (fst (snd slot)) \<noteq> None"
    by (simp add: twice_config_def corner_factory_def)
  have l2: "map_of (rev (initialLayout twice_config)) (0, 0) = Some (''rook'', ''black'')"
    by (simp add: twice_config_def)
  have c2: "card (fst ` set (initialLayout twice_config)) = 1"
    by (simp add: twice_config_def)
  have m: "\<exists>slot \<in> set (initialLayout duel_config).
      map_of [(''pawn'', ''Pawn'')] (fst (snd slot)) = None"
    by (simp add: duel_config_def)
  note t1 = Board_ctor_places_layout [of duel_config corner_factory castling_rules,
      THEN conjunct1, THEN mp, OF a]
  have 1: "\<exists>b. Board_ctor castling_rules duel_config corner_factory = Inr b \<and> length (pieces b) = 2"
    using t1
  proof (elim exE conjE)
    fix placed b
    assume b: "Board_ctor castling_rules duel_config corner_factory = Inr b"
      and bl: "distinct (map fst (initialLayout duel_config)) \<longrightarrow>
       length (pieces b) = length (initialLayout duel_config) \<and>
       (\<forall>slot \<in> set (initialLayout duel_config). \<exists>c pc.
          map_of corner_factory (fst (snd slot)) = Some c \<and>
          map_of (pieces b) (fst slot) = Some pc \<and>
          pos pc = fst slot \<and> suit pc = snd (snd slot) \<and> cls pc = c \<and> movenum pc = 0)"
    from bl d have "length (pieces b) = length (initialLayout duel_config)"
      by (rule mp [THEN conjunct1])
    with dl have "length (pieces b) = 2"
      by simp
    with b show ?thesis
      by (intro exI conjI)
  qed
  note 2 = Board_ctor_places_layout [of duel_config "[(''pawn'', ''Pawn'')]" castling_rules,
      THEN conjunct2, THEN mp, OF m]
  note t4 = Board_ctor_places_layout [of twice_config corner_factory step_rules,
      THEN conjunct1, THEN mp, OF a2]
  have 4: "\<exists>b pc. Board_ctor step_rules twice_config corner_factory = Inr b \<and> length (pieces b) = 1 \<and>
      map_of (pieces b) (0, 0) = Some pc \<and> suit pc = ''black''"
    using t4
  proof (elim exE conjE)
    fix placed b
    assume b: "Board_ctor step_rules twice_config corner_factory = Inr b"
      and len: "length (pieces b) = card (fst ` set (initialLayout twice_config))"
      and lst: "\<forall>sq kind su. map_of (rev (initialLayout twice_config)) sq = Some (kind, su) \<longrightarrow>
            (\<exists>c pc. map_of corner_factory kind = Some c \<and>
               map_of (pieces placed) sq = Some (Piece_ctor sq su c) \<and>
               map_of (pieces b) sq = Some pc \<and>
               pos pc = sq \<and> suit pc = su \<and> cls pc = c \<and> movenum pc = 0)"
    from lst have "map_of (rev (initialLayout twice_config)) (0, 0) = Some (''rook'', ''black'') \<longrightarrow>
            (\<exists>c pc. map_of corner_factory ''rook'' = Some c \<and>
               map_of (pieces placed) (0, 0) = Some (Piece_ctor (0, 0) ''black'' c) \<and>
               map_of (pieces b) (0, 0) = Some pc \<and>
               pos pc = (0, 0) \<and> suit pc = ''black'' \<and> cls pc = c \<and> movenum pc = 0)"
      by (elim allE)
    with l2 have "\<exists>c pc. map_of corner_factory ''rook'' = Some c \<and>
               map_of (pieces placed) (0, 0) = Some (Piece_ctor (0, 0) ''black'' c) \<and>
               map_of (pieces b) (0, 0) = Some pc \<and>
               pos pc = (0, 0) \<and> suit pc = ''black'' \<and> cls pc = c \<and> movenum pc = 0"
      by (elim impE)
    then obtain pc where pc: "map_of (pieces b) (0, 0) = Some pc" "suit pc = ''black''"
      by (elim exE conjE)
    from len c2 have "length (pieces b) = 1"
      by (rule trans)
    with b pc show ?thesis
      by (intro exI conjI)
  qed
  have 3: "Board_ctor castling_rules duel_config corner_factory =
     Inr \<lparr>config = duel_config,
          pieces =
            [((0, 0), \<lparr>pos = (0, 0), suit = ''white'', traj = {(0, 1)}, capt = {(1, 1)},
                       movenum = 0, cls = ''Rook''\<rparr>),
             ((7, 7), \<lparr>pos = (7, 7), suit = ''black'', traj = {}, capt = {},
                       movenum = 0, cls = ''Rook''\<rparr>)],
          captures = [((0, 0), (0, 0)), ((7, 7), (7, 7))],
          factory = corner_factory,
          interactions = [(''Castling'', 0)]\<rparr>"
    by (simp add: eval_defs Board_ctor_def castling_rules_def step_rules_def duel_config_def
        corner_factory_def)
  from 3 1 4 2 show ?thesis
    by (intro conjI)
qed

text \<open>
  The claim as stated fails for a layout that names a square twice: the second entry
  replaces the piece of the first, and the board has one piece for two layout entries.
\<close>

theorem layout_square_twice_counterexample:
  "initialLayout twice_config = [((0, 0), ''rook'', ''white''), ((0, 0), ''rook'', ''black'')] \<and>
   Board_ctor step_rules twice_config corner_factory =
     Inr \<lparr>config = twice_config,
          pieces =
            [((0, 0), \<lparr>pos = (0, 0), suit = ''black'', traj = {(0, 1)}, capt = {(1, 1)},
                       movenum = 0, cls = ''Rook''\<rparr>)],
          captures = [((0, 0), (0, 0))],
          factory = corner_factory,
          interactions = []\<rparr>"
  by (simp add: eval_defs Board_ctor_def step_rules_def twice_config_def corner_factory_def)


subsection \<open>What a recalculation does to the capture relation\<close>

lemma find_pos_SomeD:
  assumes "find_pos this b = Some it"
  shows "it \<in> fst ` set (pieces b)"
proof -
  from assms obtain pc q where pc: "map_of (pieces b) this = Some pc"
    and q: "map_of (pieces b) (pos pc) = Some q" and it: "it = pos pc"
    by (auto simp: find_pos_def split: option.splits)
  from q have "(pos pc, q) \<in> set (pieces b)" by (rule map_of_SomeD)
  with it show ?thesis by force
qed

lemma set_erase_at: "set (erase_at i xs) \<subseteq> set xs"
proof -
  have "set (take i xs) \<subseteq> set xs" by (rule set_take_subset)
  moreover have "set (drop (Suc i) xs) \<subseteq> set xs" by (rule set_drop_subset)
  ultimately show ?thesis by (simp add: erase_at_def)
qed

lemma set_removeCapturable_loop: "set (removeCapturable_loop it stop tile xs) \<subseteq> set xs"
proof (induction it stop tile xs rule: removeCapturable_loop.induct)
  case (1 it stop tile xs)
  show ?case
  proof (cases "it < stop")
    case False
    then show ?thesis by (simp add: removeCapturable_loop.simps [of it stop])
  next
    case True
    show ?thesis
    proof (cases "snd (xs ! it) = tile")
      case hit: True
      with True show ?thesis
        by (simp add: removeCapturable_loop.simps [of it stop] set_erase_at)
    next
      case miss: False
      with True "1.IH" show ?thesis
        by (simp add: removeCapturable_loop.simps [of it stop])
    qed
  qed
qed

lemma removeCapturable_captures_subset:
  assumes "removeCapturable this tile b = Inr b'"
  shows "set (captures b') \<subseteq> set (captures b)"
proof -
  from assms obtain it where
    "captures b' = removeCapturable_loop (fst (equal_range it (captures b)))
        (snd (equal_range it (captures b))) tile (captures b)"
    by (auto simp: removeCapturable_def Let_def split: option.splits)
  then show ?thesis by (simp add: set_removeCapturable_loop)
qed

lemma exec_captures_new:
  assumes "exec R this a b = Inr b'" and "e \<in> set (captures b')"
  shows "e \<in> set (captures b) \<or> (fst e \<in> fst ` set (pieces b) \<and> valid b (snd e))"
proof (cases a)
  case (AddCapturable tile)
  with assms(1) have x: "addCapturable this tile b = Inr b'" by simp
  from addCapturable_captures [OF x] obtain it
    where c: "captures b' = (if valid b tile then mm_insert (it, tile) (captures b) else captures b)"
      and f: "valid b tile \<longrightarrow> find_pos this b = Some it"
    by blast
  show ?thesis
  proof (cases "valid b tile")
    case True
    with f have k: "it \<in> fst ` set (pieces b)" by (simp add: find_pos_SomeD)
    from True c assms(2) have "e = (it, tile) \<or> e \<in> set (captures b)" by simp
    then show ?thesis
    proof
      assume "e = (it, tile)"
      with k True show ?thesis by simp
    qed simp
  next
    case False
    with c assms(2) show ?thesis by simp
  qed
next
  case (RemoveCapturable tile)
  with assms(1) have "removeCapturable this tile b = Inr b'" by simp
  from removeCapturable_captures_subset [OF this] assms(2) show ?thesis by blast
next
  case (GetInteraction t)
  with assms show ?thesis by (auto simp: getInteraction_frame)
qed (use assms in \<open>auto simp: addTrajectory_def removeTrajectory_def addCapturing_def
      removeCapturing_def split: if_splits\<close>)

lemma run_captures_new:
  assumes "run R this as b = Inr b'" and "e \<in> set (captures b')"
  shows "e \<in> set (captures b) \<or> (fst e \<in> fst ` set (pieces b) \<and> valid b (snd e))"
  using assms
proof (induction as arbitrary: b)
  case Nil
  then show ?case by simp
next
  case (Cons a as)
  from Cons.prems(1) obtain b1 where a: "exec R this a b = Inr b1"
    and r: "run R this as b1 = Inr b'"
    by (auto split: sum.splits)
  from occupancy_exec [OF a] have "map fst (pieces b1) = map fst (pieces b)"
    by (rule occupancy_keys)
  then have k: "fst ` set (pieces b1) = fst ` set (pieces b)"
    by (metis set_map)
  from config_exec [OF a] have v: "valid b1 = valid b" by (rule valid_cong)
  from Cons.IH [OF r Cons.prems(2)]
  have "e \<in> set (captures b1) \<or> (fst e \<in> fst ` set (pieces b) \<and> valid b (snd e))"
    by (simp add: k v)
  with exec_captures_new [OF a] show ?case by blast
qed

lemma makeTrajectory_captures_new:
  assumes "makeTrajectory R this b = Inr b'" and "e \<in> set (captures b')"
  shows "e \<in> set (captures b) \<or> (fst e \<in> fst ` set (pieces b) \<and> valid b (snd e))"
proof -
  let ?c = "upd_piece this (\<lambda>q. q\<lparr>capt := {}\<rparr>) (upd_piece this (\<lambda>q. q\<lparr>traj := {}\<rparr>) b)"
  from assms(1) obtain pc b3 where "map_of (pieces b) this = Some pc"
    and a: "exec R this (AddCapturable (pos pc)) ?c = Inr b3"
    and r: "run R this (calcTrajectory R (cls pc) b3 this) b3 = Inr b'"
    by (auto elim: makeTrajectory_unfold)
  have k: "fst ` set (pieces ?c) = fst ` set (pieces b)"
    by (metis set_map upd_piece_simps(5))
  from occupancy_exec [OF a] have "map fst (pieces b3) = map fst (pieces ?c)"
    by (rule occupancy_keys)
  then have k3: "fst ` set (pieces b3) = fst ` set (pieces b)"
    using k by (metis set_map)
  from config_exec [OF a] have "valid b3 = valid ?c" by (rule valid_cong)
  then have v3: "valid b3 = valid b" by simp
  from run_captures_new [OF r assms(2)]
  have "e \<in> set (captures b3) \<or> (fst e \<in> fst ` set (pieces b) \<and> valid b (snd e))"
    by (simp add: k3 v3)
  with exec_captures_new [OF a, of e] k show ?thesis by auto
qed

lemma recalculate_loop_captures_new:
  assumes "recalculate_loop R ks b = Inr b'" and "e \<in> set (captures b')"
  shows "e \<in> set (captures b) \<or> (fst e \<in> fst ` set (pieces b) \<and> valid b (snd e))"
  using assms
proof (induction ks arbitrary: b)
  case Nil
  then show ?case by simp
next
  case (Cons k ks)
  from Cons.prems(1) obtain b1 where m: "makeTrajectory R k b = Inr b1"
    and r: "recalculate_loop R ks b1 = Inr b'"
    by (auto split: sum.splits)
  from makeTrajectory_frame [OF m] have o: "occupancy b1 = occupancy b" and c: "config b1 = config b"
    by simp_all
  from o have "map fst (pieces b1) = map fst (pieces b)" by (rule occupancy_keys)
  then have ks: "fst ` set (pieces b1) = fst ` set (pieces b)" by (metis set_map)
  from c have v: "valid b1 = valid b" by (rule valid_cong)
  from Cons.IH [OF r Cons.prems(2)]
  have "e \<in> set (captures b1) \<or> (fst e \<in> fst ` set (pieces b) \<and> valid b (snd e))"
    by (simp add: ks v)
  with makeTrajectory_captures_new [OF m] show ?case by blast
qed

lemma recalculate_captures_fresh:
  assumes "recalculate R b = Inr b'" and "captures b = []" and "e \<in> set (captures b')"
  shows "fst e \<in> fst ` set (pieces b') \<and> valid b' (snd e)"
proof -
  from assms(1) have l: "recalculate_loop R (map fst (pieces b)) b = Inr b'"
    by (simp add: recalculate_def)
  from recalculate_frame [OF assms(1)] have o: "occupancy b' = occupancy b"
    and c: "config b' = config b"
    by simp_all
  from o have "map fst (pieces b') = map fst (pieces b)" by (rule occupancy_keys)
  then have k: "fst ` set (pieces b') = fst ` set (pieces b)" by (metis set_map)
  from c have v: "valid b' = valid b" by (rule valid_cong)
  from recalculate_loop_captures_new [OF l assms(3)] assms(2) show ?thesis
    by (simp add: k v)
qed


text \<open>
  The pass as \<open>Board::move\<close> and \<open>Board::update\<close> are described to run it, on the emptied
  relation: every entry of the result was made during the pass.
\<close>

lemma global_recalculation_captures_fresh:
  assumes "global_recalculation R b = Inr b'" and "e \<in> set (captures b')"
  shows "fst e \<in> fst ` set (pieces b') \<and> valid b' (snd e)"
proof -
  from assms(1) have "recalculate R (b\<lparr>captures := []\<rparr>) = Inr b'"
    by (simp add: global_recalculation_def)
  from recalculate_captures_fresh [OF this _ assms(2)] show ?thesis by simp
qed

lemma Board_move_captures_fresh:
  assumes "Board_move R source target b = Inr (True, b')" and "e \<in> set (captures b')"
  shows "fst e \<in> fst ` set (pieces b') \<and> valid b' (snd e)"
proof -
  from assms(1) obtain b3 where "global_recalculation R b3 = Inr b'"
    by (auto simp: Board_move_def Let_def split: option.splits if_splits sum.splits)
  from global_recalculation_captures_fresh [OF this assms(2)] show ?thesis .
qed




subsection \<open>Moves\<close>

lemma Board_move_unoccupied:
  "map_of (pieces b) source = None \<Longrightarrow> Board_move R source target b = Inr (False, b)"
  by (simp add: Board_move_def)

lemma Board_move_unreachable:
  "map_of (pieces b) source = Some pc \<Longrightarrow> target \<notin> traj pc \<Longrightarrow>
     Board_move R source target b = Inr (False, b)"
  by (simp add: Board_move_def)

lemma Board_move_reachable:
  assumes "map_of (pieces b) source = Some pc" and "target \<in> traj pc"
  shows "Board_move R source target b \<noteq> Inr (False, b')"
  using assms by (simp add: Board_move_def Let_def split: sum.splits)

text \<open>
  C1. \<open>Board::move\<close> returns true only if the source square is occupied and the target
  is in the trajectory of the piece there. Whenever it returns false the board it leaves
  is the board it was called on: position table, every piece's sets, capture relation
  and interaction registry. It returns false whenever the source is unoccupied or the
  target is not in the trajectory.
\<close>

theorem Board_move_fails_atomically:
  "(\<forall>b'. Board_move R source target b = Inr (True, b') \<longrightarrow>
      (\<exists>pc. map_of (pieces b) source = Some pc \<and> target \<in> traj pc)) \<and>
   (\<forall>b'. Board_move R source target b = Inr (False, b') \<longrightarrow> b' = b) \<and>
   (map_of (pieces b) source = None \<longrightarrow> Board_move R source target b = Inr (False, b)) \<and>
   (\<forall>pc. map_of (pieces b) source = Some pc \<and> target \<notin> traj pc \<longrightarrow>
      Board_move R source target b = Inr (False, b))"
proof (cases "map_of (pieces b) source")
  case None
  then show ?thesis by (simp add: Board_move_unoccupied)
next
  case (Some pc)
  show ?thesis
  proof (cases "target \<in> traj pc")
    case True
    with Some show ?thesis by (simp add: Board_move_reachable)
  next
    case False
    with Some show ?thesis by (simp add: Board_move_unreachable)
  qed
qed

theorem Board_move_fails_atomically_witness:
  "Board_move step_rules (0, 0) (0, 1) recomputed_once =
     Inr (True, corner_board
       \<lparr>pieces := [((0, 1), \<lparr>pos = (0, 1), suit = ''white'', traj = {(0, 2)}, capt = {(1, 2)},
                     movenum = 1, cls = ''Rook''\<rparr>)],
        captures := [((0, 1), (0, 1))]\<rparr>) \<and>
   Board_move step_rules (0, 0) (5, 5) recomputed_once = Inr (False, recomputed_once) \<and>
   Board_move step_rules (3, 3) (3, 4) recomputed_once = Inr (False, recomputed_once)"
proof -
  have p: "map_of (pieces recomputed_once) (0, 0) =
      Some \<lparr>pos = (0, 0), suit = ''white'', traj = {(0, 1)}, capt = {(1, 1)},
            movenum = 0, cls = ''Rook''\<rparr>"
    by (simp add: recomputed_once_def)
  have n: "map_of (pieces recomputed_once) (3, 3) = None"
    by (simp add: recomputed_once_def)
  from Board_move_fails_atomically [of step_rules "(0, 0)" "(5, 5)" recomputed_once] p
  have 1: "Board_move step_rules (0, 0) (5, 5) recomputed_once = Inr (False, recomputed_once)"
    by simp
  from Board_move_fails_atomically [of step_rules "(3, 3)" "(3, 4)" recomputed_once] n
  have 2: "Board_move step_rules (3, 3) (3, 4) recomputed_once = Inr (False, recomputed_once)"
    by simp
  have 3: "Board_move step_rules (0, 0) (0, 1) recomputed_once =
     Inr (True, corner_board
       \<lparr>pieces := [((0, 1), \<lparr>pos = (0, 1), suit = ''white'', traj = {(0, 2)}, capt = {(1, 2)},
                     movenum = 1, cls = ''Rook''\<rparr>)],
        captures := [((0, 1), (0, 1))]\<rparr>)"
    by (simp add: Board_move_def global_recalculation_def eval_defs corner_defs
        recomputed_once_def call_tick_def)
  from 1 2 3 show ?thesis by blast
qed

end
